theory Spec2Isabelle
  imports Main "HOL-Library.Sublist"
begin



section \<open>The migration engine of \<^verbatim>\<open>backend/pkg/migrate/migrate.go\<close>\<close>

text \<open>
  The engine loads versioned SQL scripts from a directory, reads the applied version
  from the table \<^verbatim>\<open>migrations\<close> and applies or reverts scripts, one transaction per
  migration. The Go code is embedded function by function. What the code leaves to
  its environment is explicit here:
  \<^item> the directory is a list of entries, as \<^verbatim>\<open>os.ReadDir\<close> returns them;
  \<^item> the database is a record of the rows of the table \<^verbatim>\<open>migrations\<close> and of
    everything else it stores; what a script's statement does to it is a parameter;
  \<^item> cancellation of the context and failures of the driver depend on a logical
    clock that advances at every check of the context and every call of the driver.
  Go's \<^verbatim>\<open>int\<close> is read as a mathematical integer: versions come from six-character
  file names and from an \<^verbatim>\<open>INTEGER\<close> column, far inside the 64-bit range. The one
  expression that can overflow, \<^verbatim>\<open>-steps\<close>, has its wrap-around written out.
\<close>

subsection \<open>Strings: the functions of Go's \<^verbatim>\<open>strings\<close> and \<^verbatim>\<open>strconv\<close> the engine calls\<close>

text \<open>
  A Go string is a sequence of bytes; \<^typ>\<open>string\<close> is a list of 8-bit characters.
  \<^verbatim>\<open>strings.TrimSpace\<close> removes leading and trailing white space as Unicode defines
  it, reading the bytes as UTF-8. The encodings of the white-space code points are
  listed: the six ASCII ones, U+0085, U+00A0, U+1680, U+2000 to U+200A, U+2028,
  U+2029, U+202F, U+205F and U+3000. No encoding is a prefix or a suffix of another,
  so stripping them one at a time from either end is what decoding rune by rune does.
\<close>

definition space_encodings :: "string list" where
  "space_encodings =
    [[CHR 0x09], [CHR 0x0A], [CHR 0x0B], [CHR 0x0C], [CHR 0x0D], [CHR 0x20],
     [CHR 0xC2, CHR 0x85], [CHR 0xC2, CHR 0xA0],
     [CHR 0xE1, CHR 0x9A, CHR 0x80],
     [CHR 0xE2, CHR 0x80, CHR 0x80], [CHR 0xE2, CHR 0x80, CHR 0x81],
     [CHR 0xE2, CHR 0x80, CHR 0x82], [CHR 0xE2, CHR 0x80, CHR 0x83],
     [CHR 0xE2, CHR 0x80, CHR 0x84], [CHR 0xE2, CHR 0x80, CHR 0x85],
     [CHR 0xE2, CHR 0x80, CHR 0x86], [CHR 0xE2, CHR 0x80, CHR 0x87],
     [CHR 0xE2, CHR 0x80, CHR 0x88], [CHR 0xE2, CHR 0x80, CHR 0x89],
     [CHR 0xE2, CHR 0x80, CHR 0x8A],
     [CHR 0xE2, CHR 0x80, CHR 0xA8], [CHR 0xE2, CHR 0x80, CHR 0xA9],
     [CHR 0xE2, CHR 0x80, CHR 0xAF], [CHR 0xE2, CHR 0x81, CHR 0x9F],
     [CHR 0xE3, CHR 0x80, CHR 0x80]]"

function trimPrefixes :: "string list \<Rightarrow> string \<Rightarrow> string" where
  "trimPrefixes ps s =
     (case find (\<lambda>p. p \<noteq> [] \<and> prefix p s) ps of
        None \<Rightarrow> s
      | Some p \<Rightarrow> trimPrefixes ps (drop (length p) s))"
  by pat_completeness auto
termination
proof (relation "measure (\<lambda>(ps, s). length s)")
  show "wf (measure (\<lambda>(ps, s). length s))" by simp
next
  fix ps :: "string list" and s p :: string
  assume "find (\<lambda>p. p \<noteq> [] \<and> prefix p s) ps = Some p"
  then have "p \<noteq> []" and "prefix p s"
    by (auto simp: find_Some_iff)
  then have "s \<noteq> []" by auto
  with \<open>p \<noteq> []\<close> show "((ps, drop (length p) s), (ps, s)) \<in> measure (\<lambda>(ps, s). length s)"
    by simp
qed

declare trimPrefixes.simps [simp del]

definition TrimSpace :: "string \<Rightarrow> string" where
  "TrimSpace s =
     rev (trimPrefixes (map rev space_encodings) (rev (trimPrefixes space_encodings s)))"

text \<open>\<^verbatim>\<open>strings.Split(s, ";")\<close>: the pieces between the separators, always at least one.\<close>

fun Split :: "string \<Rightarrow> char \<Rightarrow> string list" where
  "Split [] sep = [[]]"
| "Split (c # cs) sep =
     (if c = sep then [] # Split cs sep
      else (case Split cs sep of [] \<Rightarrow> [[c]] | piece # pieces \<Rightarrow> (c # piece) # pieces))"

text \<open>\<^verbatim>\<open>strings.HasSuffix\<close>, as the library writes it.\<close>

definition HasSuffix :: "string \<Rightarrow> string \<Rightarrow> bool" where
  "HasSuffix s suf \<longleftrightarrow>
     length suf \<le> length s \<and> drop (length s - length suf) s = suf"

text \<open>
  \<^verbatim>\<open>strconv.Atoi\<close> on a short string: an optional sign, then at least one decimal
  digit and nothing else. \<^const>\<open>None\<close> is the syntax error. A digit is a byte from 48
  (the character 0) to 57 (the character 9).
\<close>

definition digit_value :: "char \<Rightarrow> int option" where
  "digit_value c =
     (let n = (of_char c :: nat) in
      if 48 \<le> n \<and> n \<le> 57 then Some (int n - 48) else None)"

fun digits_value :: "string \<Rightarrow> int \<Rightarrow> int option" where
  "digits_value [] n = Some n"
| "digits_value (c # cs) n =
     (case digit_value c of
        None \<Rightarrow> None
      | Some d \<Rightarrow> digits_value cs (n * 10 + d))"

definition Atoi :: "string \<Rightarrow> int option" where
  "Atoi s =
     (case s of
        [] \<Rightarrow> None
      | c # cs \<Rightarrow>
          if c = CHR ''-'' \<or> c = CHR ''+'' then
            (if cs = [] then None
             else map_option (\<lambda>n. if c = CHR ''-'' then - n else n) (digits_value cs 0))
          else digits_value s 0)"

subsection \<open>Errors\<close>

text \<open>
  One constructor per error the code builds; the arguments are what the message
  formats. The driver's own error text, which several messages append, is left out.
  \<open>IndexOutOfRange i n\<close> is the run-time panic of indexing a slice of length \<open>n\<close> at
  \<open>i\<close>: it is not returned but unwinds the caller.
\<close>

datatype error =
    CtxCancelled
  | ConnectError
  | ReadDirError
  | ReadFileError string
  | NoValidMigrations
  | MissingUp int
  | LoadFailed error
  | IndexOutOfRange int nat
  | QueryError
  | BeforeApplying error
  | BeforeRollingBack error
  | BeforeSteps error
  | CtxCancelledApplying int
  | CtxCancelledRollingBack int
  | EmptyScript int bool
  | BeginError
  | ScriptExecutionError int nat string
  | RecordError int
  | RemoveError int
  | CommitError
  | ApplyFailed int error
  | RollbackFailed int error
  | NoMigrations
  | NotFound int
  | NotRevertible int

subsection \<open>The loader\<close>

record Migration =
  Version :: int
  UpSQL :: string
  DownSQL :: string

text \<open>Go's zero value \<^verbatim>\<open>Migration{}\<close>.\<close>

definition zero_Migration :: Migration where
  "zero_Migration = \<lparr>Version = 0, UpSQL = [], DownSQL = []\<rparr>"

text \<open>
  A directory entry: its name, whether it is a directory, and what \<^verbatim>\<open>os.ReadFile\<close>
  gives for it (\<^const>\<open>None\<close> when the read fails).
\<close>

record DirEntry =
  Name :: string
  IsDir :: bool
  Contents :: "string option"

text \<open>
  What the body of the loop does to the slice for a file of the given version:
  an element that is still the zero value gets its \<^verbatim>\<open>Version\<close>, then the file's
  data becomes its \<^verbatim>\<open>UpSQL\<close> or its \<^verbatim>\<open>DownSQL\<close>.
\<close>

definition store_script :: "Migration list \<Rightarrow> int \<Rightarrow> bool \<Rightarrow> string \<Rightarrow> Migration list" where
  "store_script migrations version isUp data =
     (let migrations1 =
            (if migrations ! nat version = zero_Migration
             then migrations[nat version := zero_Migration\<lparr>Version := version\<rparr>]
             else migrations)
      in if isUp
         then migrations1[nat version := (migrations1 ! nat version)\<lparr>UpSQL := data\<rparr>]
         else migrations1[nat version := (migrations1 ! nat version)\<lparr>DownSQL := data\<rparr>])"

text \<open>
  The loop over the entries of \<^verbatim>\<open>loadMigrations\<close>, with the slice and
  \<^verbatim>\<open>maxVersion\<close> as its state. Indexing the slice outside its bounds panics, and
  the slice is indexed before the file is read.
\<close>

fun load_entries ::
  "DirEntry list \<Rightarrow> Migration list \<Rightarrow> int \<Rightarrow> error + (Migration list \<times> int)" where
  "load_entries [] migrations maxVersion = Inr (migrations, maxVersion)"
| "load_entries (entry # rest) migrations maxVersion =
     (if IsDir entry then load_entries rest migrations maxVersion
      else if length (Name entry) < 6 then load_entries rest migrations maxVersion
      else
        (case Atoi (take 6 (Name entry)) of
           None \<Rightarrow> load_entries rest migrations maxVersion
         | Some version \<Rightarrow>
             if \<not> HasSuffix (Name entry) ''.up.sql'' \<and> \<not> HasSuffix (Name entry) ''.down.sql''
             then load_entries rest migrations maxVersion
             else if version < 0 \<or> int (length migrations) \<le> version
             then Inl (IndexOutOfRange version (length migrations))
             else
               (case Contents entry of
                  None \<Rightarrow> Inl (ReadFileError (Name entry))
                | Some data \<Rightarrow>
                    load_entries rest
                      (store_script migrations version (HasSuffix (Name entry) ''.up.sql'') data)
                      (if version > maxVersion then version else maxVersion))))"

text \<open>
  \<^verbatim>\<open>loadMigrations\<close>. The argument is what \<^verbatim>\<open>os.ReadDir\<close> returns, \<^const>\<open>None\<close> when
  it fails. The slice has \<^verbatim>\<open>fileCount/2+5\<close> zero values; the result is its first
  \<^verbatim>\<open>maxVersion+1\<close> elements.
\<close>

definition loadMigrations :: "DirEntry list option \<Rightarrow> error + Migration list" where
  "loadMigrations dir =
     (case dir of
        None \<Rightarrow> Inl ReadDirError
      | Some entries \<Rightarrow>
          (case load_entries entries (replicate (length entries div 2 + 5) zero_Migration) (- 1) of
             Inl e \<Rightarrow> Inl e
           | Inr (migrations, maxVersion) \<Rightarrow>
               if maxVersion = - 1 then Inl NoValidMigrations
               else
                 (case find (\<lambda>version. UpSQL (migrations ! nat version) = []) [0..maxVersion] of
                    Some version \<Rightarrow> Inl (MissingUp version)
                  | None \<Rightarrow> Inr (take (nat (maxVersion + 1)) migrations))))"

subsection \<open>The database, the context and the driver\<close>

text \<open>
  The database holds the rows of the table \<^verbatim>\<open>migrations\<close> (its one column
  \<^verbatim>\<open>version\<close> is the primary key; \<^const>\<open>None\<close> when the table does not exist) and
  the rest of its contents, of any type.
\<close>

record 'd database =
  migrations_table :: "int list option"
  user_data :: 'd

text \<open>
  What has been observed of a run: a migration handed to \<^verbatim>\<open>applyMigration\<close>, a
  statement sent inside a transaction, a transaction committed.
\<close>

datatype event = Invoke int bool | Exec string | Committed int bool

text \<open>
  The world a run acts on: the committed database, the logical clock and the
  observations so far. The clock advances at every \<^verbatim>\<open>ctx.Err()\<close> and every call
  of the driver.
\<close>

record 'd world =
  db :: "'d database"
  clock :: nat
  trace :: "event list"

text \<open>
  The environment of a run: what executing one statement of a script does to the
  database inside a transaction (\<^const>\<open>None\<close> when the statement fails), the time at
  which the context is cancelled, if ever, and the times at which a call of the
  driver fails for a reason of its own (connection lost, permission denied).
\<close>

record 'd env =
  sql_exec :: "string \<Rightarrow> 'd database \<Rightarrow> 'd database option"
  cancel_at :: "nat option"
  fault :: "nat \<Rightarrow> bool"

definition tick :: "'d world \<Rightarrow> 'd world" where
  "tick w = w\<lparr>clock := Suc (clock w)\<rparr>"

definition observe :: "event \<Rightarrow> 'd world \<Rightarrow> 'd world" where
  "observe e w = w\<lparr>trace := trace w @ [e]\<rparr>"

text \<open>\<^verbatim>\<open>ctx.Err() != nil\<close>: a context once cancelled stays cancelled.\<close>

definition cancelled :: "'d env \<Rightarrow> 'd world \<Rightarrow> bool" where
  "cancelled env w = (case cancel_at env of None \<Rightarrow> False | Some t \<Rightarrow> t \<le> clock w)"

subsection \<open>\<^verbatim>\<open>NewMigrator\<close> and \<^verbatim>\<open>GetCurrentVersion\<close>\<close>

text \<open>
  A \<^verbatim>\<open>Migrator\<close> is its connection, which is the world here, and its migrations.
  A panic of the loader is not wrapped: it unwinds \<^verbatim>\<open>NewMigrator\<close>.
\<close>

definition NewMigrator ::
  "'d env \<Rightarrow> DirEntry list option \<Rightarrow> 'd world \<Rightarrow> (error + Migration list) \<times> 'd world" where
  "NewMigrator env dir w =
     (if cancelled env w then (Inl CtxCancelled, tick w)
      else if fault env (clock (tick w)) then (Inl ConnectError, tick (tick w))
      else
        (case loadMigrations dir of
           Inl (IndexOutOfRange i n) \<Rightarrow> (Inl (IndexOutOfRange i n), tick (tick w))
         | Inl e \<Rightarrow> (Inl (LoadFailed e), tick (tick w))
         | Inr migrations \<Rightarrow> (Inr migrations, tick (tick w))))"

text \<open>
  What \<^verbatim>\<open>QueryRow(ctx, "SELECT MAX(version) FROM migrations").Scan(&version)\<close>
  gives: the error \<^verbatim>\<open>pgx.ErrNoRows\<close>, the PostgreSQL error 42P01 (undefined table),
  another error, a NULL or a value. An aggregate over an existing table always
  returns one row, NULL when the table is empty.
\<close>

datatype query_outcome = ErrNoRows | UndefinedTable | OtherFailure | Null | Value int

definition QueryRow_max :: "'d env \<Rightarrow> 'd world \<Rightarrow> query_outcome" where
  "QueryRow_max env w =
     (if fault env (clock w) then OtherFailure
      else
        (case migrations_table (db w) of
           None \<Rightarrow> UndefinedTable
         | Some rows \<Rightarrow> if rows = [] then Null else Value (Max (set rows))))"

definition GetCurrentVersion :: "'d env \<Rightarrow> 'd world \<Rightarrow> (error + int) \<times> 'd world" where
  "GetCurrentVersion env w =
     (if cancelled env w then (Inl CtxCancelled, tick w)
      else
        (case QueryRow_max env (tick w) of
           ErrNoRows \<Rightarrow> (Inr 0, tick (tick w))
         | UndefinedTable \<Rightarrow> (Inr 0, tick (tick w))
         | OtherFailure \<Rightarrow> (Inl QueryError, tick (tick w))
         | Null \<Rightarrow> (Inr 0, tick (tick w))
         | Value v \<Rightarrow> (Inr v, tick (tick w))))"

text \<open>The version a database records: what \<^verbatim>\<open>GetCurrentVersion\<close> reads from it.\<close>

definition stored_version :: "'d database \<Rightarrow> int" where
  "stored_version d =
     (case migrations_table d of
        None \<Rightarrow> 0
      | Some rows \<Rightarrow> if rows = [] then 0 else Max (set rows))"

subsection \<open>\<^verbatim>\<open>applyMigration\<close>\<close>

text \<open>
  The loop over the statements of a script, \<^verbatim>\<open>i\<close> counting the pieces of the split.
  It runs inside the transaction: \<open>d\<close> is the transaction's view of the database,
  while the committed database of the world stays as it is.
\<close>

fun exec_statements ::
  "'d env \<Rightarrow> int \<Rightarrow> nat \<Rightarrow> string list \<Rightarrow> 'd database \<Rightarrow> 'd world
     \<Rightarrow> (error + 'd database) \<times> 'd world" where
  "exec_statements env version i [] d w = (Inr d, w)"
| "exec_statements env version i (piece # rest) d w =
     (let stmt = TrimSpace piece in
      if stmt = [] then exec_statements env version (i + 1) rest d w
      else if fault env (clock w)
      then (Inl (ScriptExecutionError version (i + 1) stmt), tick (observe (Exec stmt) w))
      else
        (case sql_exec env stmt d of
           None \<Rightarrow> (Inl (ScriptExecutionError version (i + 1) stmt), tick (observe (Exec stmt) w))
         | Some d' \<Rightarrow> exec_statements env version (i + 1) rest d' (tick (observe (Exec stmt) w))))"

definition insert_version_sql :: string where
  "insert_version_sql =
     ''INSERT INTO migrations (version) VALUES ($1) ON CONFLICT (version) DO NOTHING''"

definition delete_version_sql :: string where
  "delete_version_sql = ''DELETE FROM migrations WHERE version = $1''"

text \<open>
  The statement that updates the table \<^verbatim>\<open>migrations\<close>, inside the transaction. Both
  statements fail when the table does not exist. The insertion adds the version
  unless it is there; the deletion removes it.
\<close>

definition update_version ::
  "'d env \<Rightarrow> int \<Rightarrow> bool \<Rightarrow> 'd database \<Rightarrow> 'd world \<Rightarrow> (error + 'd database) \<times> 'd world" where
  "update_version env version up d w =
     (if up then
        (if fault env (clock w)
         then (Inl (RecordError version), tick (observe (Exec insert_version_sql) w))
         else
           (case migrations_table d of
              None \<Rightarrow> (Inl (RecordError version), tick (observe (Exec insert_version_sql) w))
            | Some rows \<Rightarrow>
                (Inr (d\<lparr>migrations_table := Some (List.insert version rows)\<rparr>),
                 tick (observe (Exec insert_version_sql) w))))
      else
        (if fault env (clock w)
         then (Inl (RemoveError version), tick (observe (Exec delete_version_sql) w))
         else
           (case migrations_table d of
              None \<Rightarrow> (Inl (RemoveError version), tick (observe (Exec delete_version_sql) w))
            | Some rows \<Rightarrow>
                (Inr (d\<lparr>migrations_table := Some (removeAll version rows)\<rparr>),
                 tick (observe (Exec delete_version_sql) w)))))"

text \<open>
  \<^verbatim>\<open>applyMigration\<close>: the check of the context, the choice of the script and the
  test that it is not blank, \<^verbatim>\<open>Begin\<close>, the statements, the update of the table,
  \<^verbatim>\<open>Commit\<close>. The deferred \<^verbatim>\<open>Rollback\<close> leaves the committed database as it was
  on every path but the one that commits; a failed commit commits nothing. The
  parameter \<^verbatim>\<open>currentVersion\<close> is not used by the body, as in the code.
\<close>

definition applyMigration ::
  "'d env \<Rightarrow> Migration \<Rightarrow> bool \<Rightarrow> int \<Rightarrow> 'd world \<Rightarrow> (error + unit) \<times> 'd world" where
  "applyMigration env migration up currentVersion w0 =
     (let w = observe (Invoke (Version migration) up) w0 in
      if cancelled env w then (Inl CtxCancelled, tick w)
      else
        (let sql = (if up then UpSQL migration else DownSQL migration) in
         if TrimSpace sql = [] then (Inl (EmptyScript (Version migration) up), tick w)
         else if fault env (clock (tick w)) then (Inl BeginError, tick (tick w))
         else
           (case exec_statements env (Version migration) 0 (Split sql CHR '';'') (db w)
                   (tick (tick w)) of
              (Inl e, w1) \<Rightarrow> (Inl e, w1)
            | (Inr d1, w1) \<Rightarrow>
                (case update_version env (Version migration) up d1 w1 of
                   (Inl e, w2) \<Rightarrow> (Inl e, w2)
                 | (Inr d2, w2) \<Rightarrow>
                     if fault env (clock w2) then (Inl CommitError, tick w2)
                     else (Inr (), tick (observe (Committed (Version migration) up) (w2\<lparr>db := d2\<rparr>)))))))"

subsection \<open>\<^verbatim>\<open>Up\<close>, \<^verbatim>\<open>Down\<close> and \<^verbatim>\<open>Steps\<close>\<close>

text \<open>The loop of \<^verbatim>\<open>Up\<close>, from \<^verbatim>\<open>version\<close> to the end of the slice.\<close>

function Up_loop ::
  "'d env \<Rightarrow> Migration list \<Rightarrow> int \<Rightarrow> int \<Rightarrow> 'd world \<Rightarrow> (error + unit) \<times> 'd world" where
  "Up_loop env migrations currentVersion version w =
     (if version < int (length migrations) then
        (if version < 0 then (Inl (IndexOutOfRange version (length migrations)), w)
         else if cancelled env w then (Inl (CtxCancelledApplying version), tick w)
         else
           (case applyMigration env (migrations ! nat version) True currentVersion (tick w) of
              (Inl e, w') \<Rightarrow> (Inl (ApplyFailed version e), w')
            | (Inr u, w') \<Rightarrow> Up_loop env migrations version (version + 1) w'))
      else (Inr (), w))"
  by pat_completeness auto
termination
  by (relation "measure (\<lambda>(env, migrations, currentVersion, version, w).
        nat (int (length migrations) - version))") auto

declare Up_loop.simps [simp del]

definition Up :: "'d env \<Rightarrow> Migration list \<Rightarrow> 'd world \<Rightarrow> (error + unit) \<times> 'd world" where
  "Up env migrations w =
     (if cancelled env w then (Inl CtxCancelled, tick w)
      else
        (case GetCurrentVersion env (tick w) of
           (Inl e, w1) \<Rightarrow> (Inl (BeforeApplying e), w1)
         | (Inr currentVersion, w1) \<Rightarrow>
             Up_loop env migrations currentVersion (currentVersion + 1) w1))"

text \<open>
  The search of \<^verbatim>\<open>Down\<close> and \<^verbatim>\<open>Steps\<close> for the migration to roll back: from the
  last element down, the first whose \<^verbatim>\<open>Version\<close> is the current version.
\<close>

definition find_migration :: "Migration list \<Rightarrow> int \<Rightarrow> Migration option" where
  "find_migration migrations currentVersion =
     find (\<lambda>m. Version m = currentVersion) (rev migrations)"

definition Down :: "'d env \<Rightarrow> Migration list \<Rightarrow> 'd world \<Rightarrow> (error + unit) \<times> 'd world" where
  "Down env migrations w =
     (if cancelled env w then (Inl CtxCancelled, tick w)
      else
        (case GetCurrentVersion env (tick w) of
           (Inl e, w1) \<Rightarrow> (Inl (BeforeRollingBack e), w1)
         | (Inr currentVersion, w1) \<Rightarrow>
             if currentVersion = 0 then (Inl NoMigrations, w1)
             else
               (case find_migration migrations currentVersion of
                  None \<Rightarrow> (Inl (NotFound currentVersion), w1)
                | Some migrationToRollback \<Rightarrow>
                    if TrimSpace (DownSQL migrationToRollback) = []
                    then (Inl (NotRevertible currentVersion), w1)
                    else applyMigration env migrationToRollback False currentVersion w1)))"

text \<open>
  The forward loop of \<^verbatim>\<open>Steps\<close>. Its state is the counter \<^verbatim>\<open>i\<close> and
  \<^verbatim>\<open>currentVersion\<close>, which the body assigns; the version to apply is computed from
  both.
\<close>

function Steps_forward ::
  "'d env \<Rightarrow> Migration list \<Rightarrow> int \<Rightarrow> int \<Rightarrow> int \<Rightarrow> 'd world \<Rightarrow> (error + unit) \<times> 'd world" where
  "Steps_forward env migrations steps i currentVersion w =
     (if i < steps \<and> currentVersion + 1 + i < int (length migrations) then
        (let version = currentVersion + 1 + i in
         if version < 0 then (Inl (IndexOutOfRange version (length migrations)), w)
         else if cancelled env w then (Inl (CtxCancelledApplying version), tick w)
         else
           (case applyMigration env (migrations ! nat version) True currentVersion (tick w) of
              (Inl e, w') \<Rightarrow> (Inl (ApplyFailed version e), w')
            | (Inr u, w') \<Rightarrow> Steps_forward env migrations steps (i + 1) version w'))
      else (Inr (), w))"
  by pat_completeness auto
termination
  by (relation "measure (\<lambda>(env, migrations, steps, i, currentVersion, w). nat (steps - i))")
    auto

declare Steps_forward.simps [simp del]

text \<open>The rollback loop of \<^verbatim>\<open>Steps\<close>.\<close>

function Steps_rollback ::
  "'d env \<Rightarrow> Migration list \<Rightarrow> int \<Rightarrow> int \<Rightarrow> int \<Rightarrow> 'd world \<Rightarrow> (error + unit) \<times> 'd world" where
  "Steps_rollback env migrations rollbackCount i currentVersion w =
     (if i < rollbackCount then
        (if currentVersion = 0 then (Inl NoMigrations, w)
         else if cancelled env w then (Inl (CtxCancelledRollingBack currentVersion), tick w)
         else
           (case find_migration migrations currentVersion of
              None \<Rightarrow> (Inl (NotFound currentVersion), tick w)
            | Some migrationToRollback \<Rightarrow>
                if TrimSpace (DownSQL migrationToRollback) = []
                then (Inl (NotRevertible currentVersion), tick w)
                else
                  (case applyMigration env migrationToRollback False currentVersion (tick w) of
                     (Inl e, w') \<Rightarrow> (Inl (RollbackFailed currentVersion e), w')
                   | (Inr u, w') \<Rightarrow>
                       Steps_rollback env migrations rollbackCount (i + 1)
                         (Version migrationToRollback - 1) w')))
      else (Inr (), w))"
  by pat_completeness auto
termination
  by (relation "measure (\<lambda>(env, migrations, rollbackCount, i, currentVersion, w).
        nat (rollbackCount - i))") auto

declare Steps_rollback.simps [simp del]

text \<open>Go's \<^verbatim>\<open>-steps\<close> on a 64-bit \<^verbatim>\<open>int\<close>: the least value is its own negation.\<close>

definition neg_int64 :: "int \<Rightarrow> int" where
  "neg_int64 x = (if x = - (2 ^ 63) then x else - x)"

definition Steps :: "'d env \<Rightarrow> Migration list \<Rightarrow> int \<Rightarrow> 'd world \<Rightarrow> (error + unit) \<times> 'd world" where
  "Steps env migrations steps w =
     (if cancelled env w then (Inl CtxCancelled, tick w)
      else
        (case GetCurrentVersion env (tick w) of
           (Inl e, w1) \<Rightarrow> (Inl (BeforeSteps e), w1)
         | (Inr currentVersion, w1) \<Rightarrow>
             if steps > 0 then Steps_forward env migrations steps 0 currentVersion w1
             else if steps < 0 then
               Steps_rollback env migrations (neg_int64 steps) 0 currentVersion w1
             else (Inr (), w1)))"

subsection \<open>Notions the properties are stated with\<close>

text \<open>The greatest version of a loaded set: the slice holds versions 0 to \<open>maxVersion\<close>.\<close>

definition maxVersion :: "Migration list \<Rightarrow> int" where
  "maxVersion migrations = int (length migrations) - 1"

text \<open>
  An entry the loop of the loader takes for a script of the given version and
  direction: a file whose first six characters parse as the version and whose name
  ends in \<^verbatim>\<open>.up.sql\<close> (up) or else in \<^verbatim>\<open>.down.sql\<close> (down).
\<close>

definition migration_file :: "DirEntry \<Rightarrow> int \<Rightarrow> bool \<Rightarrow> bool" where
  "migration_file entry version isUp \<longleftrightarrow>
     \<not> IsDir entry \<and> 6 \<le> length (Name entry) \<and> Atoi (take 6 (Name entry)) = Some version \<and>
     (if isUp then HasSuffix (Name entry) ''.up.sql''
      else \<not> HasSuffix (Name entry) ''.up.sql'' \<and> HasSuffix (Name entry) ''.down.sql'')"

text \<open>
  A script leaves the table \<^verbatim>\<open>migrations\<close> alone: no statement of it that succeeds
  changes the rows of the table, or creates or drops the table.
\<close>

definition preserves_table :: "'d env \<Rightarrow> string \<Rightarrow> bool" where
  "preserves_table env sql \<longleftrightarrow>
     (\<forall>piece \<in> set (Split sql CHR '';''). TrimSpace piece \<noteq> [] \<longrightarrow>
        (\<forall>d d'. sql_exec env (TrimSpace piece) d = Some d' \<longrightarrow>
           migrations_table d' = migrations_table d))"

text \<open>
  Every statement of a script succeeds, whatever the database it runs on. As in the
  code, the statements are the pieces of the split that are not blank.
\<close>

definition succeeds :: "'d env \<Rightarrow> string \<Rightarrow> bool" where
  "succeeds env sql \<longleftrightarrow>
     (\<forall>piece \<in> set (Split sql CHR '';''). TrimSpace piece \<noteq> [] \<longrightarrow>
        (\<forall>d. sql_exec env (TrimSpace piece) d \<noteq> None))"

text \<open>
  The statements of a script, as the code sends them: the pieces of the split,
  trimmed, without the blank ones.
\<close>

definition sent_statements :: "string list \<Rightarrow> string list" where
  "sent_statements pieces = filter (\<lambda>stmt. stmt \<noteq> []) (map TrimSpace pieces)"

text \<open>
  The database a transaction sees once the statements of the given pieces have all
  succeeded, one after the other; \<^const>\<open>None\<close> when one of them fails.
\<close>

fun statements_state :: "'d env \<Rightarrow> string list \<Rightarrow> 'd database \<Rightarrow> 'd database option" where
  "statements_state env [] d = Some d"
| "statements_state env (stmt # stmts) d =
     (case sql_exec env stmt d of
        None \<Rightarrow> None
      | Some d' \<Rightarrow> statements_state env stmts d')"

text \<open>The context is never cancelled and the driver never fails on its own.\<close>

definition healthy :: "'d env \<Rightarrow> bool" where
  "healthy env \<longleftrightarrow> cancel_at env = None \<and> (\<forall>t. \<not> fault env t)"

text \<open>The migrations a trace shows committed, in order, each with its direction.\<close>

fun committed :: "event list \<Rightarrow> (int \<times> bool) list" where
  "committed [] = []"
| "committed (Committed v up # es) = (v, up) # committed es"
| "committed (e # es) = committed es"

text \<open>The migrations a trace shows handed to \<^verbatim>\<open>applyMigration\<close>.\<close>

fun invoked :: "event list \<Rightarrow> (int \<times> bool) list" where
  "invoked [] = []"
| "invoked (Invoke v up # es) = (v, up) # invoked es"
| "invoked (e # es) = invoked es"

text \<open>The statements a trace shows sent to the database.\<close>

fun executed :: "event list \<Rightarrow> string list" where
  "executed [] = []"
| "executed (Exec s # es) = s # executed es"
| "executed (e # es) = executed es"

subsection \<open>A concrete setting\<close>

text \<open>
  A directory of four migrations, the first without a down-script, and an
  environment whose database remembers the statements executed: every statement
  succeeds but \<^verbatim>\<open>FAIL\<close>, and none touches the table \<^verbatim>\<open>migrations\<close>.
\<close>

definition demo_dir :: "DirEntry list" where
  "demo_dir =
    [\<lparr>Name = ''000000_create_migrations_table.up.sql'', IsDir = False,
       Contents = Some ''CREATE TABLE migrations (version INTEGER PRIMARY KEY);''\<rparr>,
     \<lparr>Name = ''000001_create_users_table.down.sql'', IsDir = False,
       Contents = Some ''DROP TABLE users;''\<rparr>,
     \<lparr>Name = ''000001_create_users_table.up.sql'', IsDir = False,
       Contents = Some ''CREATE SCHEMA common; CREATE TABLE users;''\<rparr>,
     \<lparr>Name = ''000002_create_groups.down.sql'', IsDir = False,
       Contents = Some ''DROP TABLE groups;''\<rparr>,
     \<lparr>Name = ''000002_create_groups.up.sql'', IsDir = False,
       Contents = Some ''CREATE TABLE groups;''\<rparr>,
     \<lparr>Name = ''000003_create_teachers.down.sql'', IsDir = False,
       Contents = Some ''DROP TABLE teachers;''\<rparr>,
     \<lparr>Name = ''000003_create_teachers.up.sql'', IsDir = False,
       Contents = Some ''CREATE TABLE teachers;''\<rparr>,
     \<lparr>Name = ''README.md'', IsDir = False, Contents = Some ''notes''\<rparr>]"

definition demo_migrations :: "Migration list" where
  "demo_migrations =
    [\<lparr>Version = 0, UpSQL = ''CREATE TABLE migrations (version INTEGER PRIMARY KEY);'',
       DownSQL = []\<rparr>,
     \<lparr>Version = 1, UpSQL = ''CREATE SCHEMA common; CREATE TABLE users;'',
       DownSQL = ''DROP TABLE users;''\<rparr>,
     \<lparr>Version = 2, UpSQL = ''CREATE TABLE groups;'', DownSQL = ''DROP TABLE groups;''\<rparr>,
     \<lparr>Version = 3, UpSQL = ''CREATE TABLE teachers;'', DownSQL = ''DROP TABLE teachers;''\<rparr>]"

definition demo_exec :: "string \<Rightarrow> string list database \<Rightarrow> string list database option" where
  "demo_exec stmt d =
     (if stmt = ''FAIL'' then None else Some (d\<lparr>user_data := user_data d @ [stmt]\<rparr>))"

definition demo_env :: "string list env" where
  "demo_env = \<lparr>sql_exec = demo_exec, cancel_at = None, fault = (\<lambda>t. False)\<rparr>"

text \<open>
  The same environment with the context cancelled at time \<open>t\<close>; from then on every
  call of the driver fails, as a call with a cancelled context does.
\<close>

definition demo_env_cancelled :: "nat \<Rightarrow> string list env" where
  "demo_env_cancelled t =
     \<lparr>sql_exec = demo_exec, cancel_at = Some t, fault = (\<lambda>time. t \<le> time)\<rparr>"

text \<open>A world at time 0 whose table \<^verbatim>\<open>migrations\<close> holds the given rows.\<close>

definition demo_world :: "int list \<Rightarrow> string list world" where
  "demo_world rows =
     \<lparr>db = \<lparr>migrations_table = Some rows, user_data = []\<rparr>, clock = 0, trace = []\<rparr>"

text \<open>A world at time 0 whose database has no table \<^verbatim>\<open>migrations\<close>.\<close>

definition fresh_world :: "string list world" where
  "fresh_world = \<lparr>db = \<lparr>migrations_table = None, user_data = []\<rparr>, clock = 0, trace = []\<rparr>"

text \<open>
  A directory of twelve migrations, versions 0 to 11, each with an up-script and no
  down-script: a set the loader is meant to accept.
\<close>

definition up_only_dir :: "DirEntry list" where
  "up_only_dir =
     map (\<lambda>name. \<lparr>Name = name, IsDir = False, Contents = Some ''SELECT 1;''\<rparr>)
       [''000000_m.up.sql'', ''000001_m.up.sql'', ''000002_m.up.sql'', ''000003_m.up.sql'',
        ''000004_m.up.sql'', ''000005_m.up.sql'', ''000006_m.up.sql'', ''000007_m.up.sql'',
        ''000008_m.up.sql'', ''000009_m.up.sql'', ''000010_m.up.sql'', ''000011_m.up.sql'']"

text \<open>A directory with a gap: an up-script for version 0 and one for version 9.\<close>

definition gap_dir :: "DirEntry list" where
  "gap_dir =
    [\<lparr>Name = ''000000_init.up.sql'', IsDir = False, Contents = Some ''SELECT 1;''\<rparr>,
     \<lparr>Name = ''000009_late.up.sql'', IsDir = False, Contents = Some ''SELECT 9;''\<rparr>]"

text \<open>
  A directory whose version 1 has a down-script of white space only and whose
  version 2 has no down-script, and the set it loads as.
\<close>

definition irreversible_dir :: "DirEntry list" where
  "irreversible_dir =
    [\<lparr>Name = ''000000_init.up.sql'', IsDir = False, Contents = Some ''SELECT 0;''\<rparr>,
     \<lparr>Name = ''000001_a.down.sql'', IsDir = False,
       Contents = Some [CHR '' '', CHR 0x0A, CHR 0x09]\<rparr>,
     \<lparr>Name = ''000001_a.up.sql'', IsDir = False, Contents = Some ''CREATE TABLE a;''\<rparr>,
     \<lparr>Name = ''000002_b.up.sql'', IsDir = False, Contents = Some ''CREATE TABLE b;''\<rparr>]"

definition irreversible_migrations :: "Migration list" where
  "irreversible_migrations =
    [\<lparr>Version = 0, UpSQL = ''SELECT 0;'', DownSQL = []\<rparr>,
     \<lparr>Version = 1, UpSQL = ''CREATE TABLE a;'', DownSQL = [CHR '' '', CHR 0x0A, CHR 0x09]\<rparr>,
     \<lparr>Version = 2, UpSQL = ''CREATE TABLE b;'', DownSQL = []\<rparr>]"

text \<open>
  A migration whose two scripts both fail at their second statement, in the concrete
  environment.
\<close>

definition two_way_migration :: Migration where
  "two_way_migration =
     \<lparr>Version = 3, UpSQL = ''CREATE TABLE t; FAIL;'', DownSQL = ''DROP TABLE t; FAIL;''\<rparr>"

section \<open>Supporting facts\<close>

subsection \<open>The world and the trace\<close>

lemma db_tick [simp]: "db (tick w) = db w"
  by (simp add: tick_def)

lemma trace_tick [simp]: "trace (tick w) = trace w"
  by (simp add: tick_def)

lemma clock_tick [simp]: "clock (tick w) = Suc (clock w)"
  by (simp add: tick_def)

lemma db_observe [simp]: "db (observe e w) = db w"
  by (simp add: observe_def)

lemma clock_observe [simp]: "clock (observe e w) = clock w"
  by (simp add: observe_def)

lemma trace_observe [simp]: "trace (observe e w) = trace w @ [e]"
  by (simp add: observe_def)

lemma cancelled_observe [simp]: "cancelled env (observe e w) = cancelled env w"
  by (simp add: cancelled_def split: option.splits)

lemma committed_append [simp]: "committed (xs @ ys) = committed xs @ committed ys"
  by (induction xs rule: committed.induct) simp_all

lemma invoked_append [simp]: "invoked (xs @ ys) = invoked xs @ invoked ys"
  by (induction xs rule: invoked.induct) simp_all

lemma executed_append [simp]: "executed (xs @ ys) = executed xs @ executed ys"
  by (induction xs rule: executed.induct) simp_all

lemma healthy_not_cancelled [simp]: "healthy env \<Longrightarrow> \<not> cancelled env w"
  by (simp add: healthy_def cancelled_def)

lemma healthy_no_fault [simp]: "healthy env \<Longrightarrow> \<not> fault env t"
  by (simp add: healthy_def)

subsection \<open>The loader\<close>

lemma length_store_script [simp]:
  "length (store_script ms version isUp data) = length ms"
  by (simp add: store_script_def Let_def)

lemma store_script_invariant:
  assumes inv: "\<forall>i<length ms. ms ! i = zero_Migration \<or> Version (ms ! i) = int i"
      and range: "0 \<le> version" "version < int (length ms)"
  shows "\<forall>i<length ms. store_script ms version isUp data ! i = zero_Migration \<or>
           Version (store_script ms version isUp data ! i) = int i"
proof (intro allI impI)
  fix i assume i: "i < length ms"
  from range have v: "nat version < length ms" by simp
  show "store_script ms version isUp data ! i = zero_Migration \<or>
          Version (store_script ms version isUp data ! i) = int i"
  proof (cases "i = nat version")
    case True
    with inv v range show ?thesis
      by (auto simp: store_script_def Let_def zero_Migration_def)
  next
    case False
    with inv i show ?thesis
      by (auto simp: store_script_def Let_def)
  qed
qed

lemma load_entries_invariant:
  "load_entries es ms mv = Inr (ms', mv') \<Longrightarrow>
   \<forall>i<length ms. ms ! i = zero_Migration \<or> Version (ms ! i) = int i \<Longrightarrow>
   - 1 \<le> mv \<Longrightarrow> mv < int (length ms) \<Longrightarrow>
   length ms' = length ms \<and>
   (\<forall>i<length ms'. ms' ! i = zero_Migration \<or> Version (ms' ! i) = int i) \<and>
   - 1 \<le> mv' \<and> mv' < int (length ms')"
proof (induction es arbitrary: ms mv)
  case Nil
  then show ?case by simp
next
  case (Cons e es)
  show ?case
  proof (cases "IsDir e \<or> length (Name e) < 6 \<or> Atoi (take 6 (Name e)) = None \<or>
      (\<not> HasSuffix (Name e) ''.up.sql'' \<and> \<not> HasSuffix (Name e) ''.down.sql'')")
    case True
    then have "load_entries (e # es) ms mv = load_entries es ms mv"
      by (auto split: option.splits)
    with Cons.prems(1) have "load_entries es ms mv = Inr (ms', mv')" by simp
    from Cons.IH [OF this Cons.prems(2-4)] show ?thesis .
  next
    case False
    then obtain version where version: "Atoi (take 6 (Name e)) = Some version" by auto
    from False version Cons.prems(1) have range: "0 \<le> version" "version < int (length ms)"
      by (auto split: if_splits)
    from False version range Cons.prems(1) obtain data where data: "Contents e = Some data"
      by (cases "Contents e") auto
    let ?ms = "store_script ms version (HasSuffix (Name e) ''.up.sql'') data"
    let ?mv = "if version > mv then version else mv"
    from False version range data Cons.prems(1)
    have rest: "load_entries es ?ms ?mv = Inr (ms', mv')"
      by auto
    have "\<forall>i<length ?ms. ?ms ! i = zero_Migration \<or> Version (?ms ! i) = int i"
      using store_script_invariant [OF Cons.prems(2) range] by simp
    moreover have "- 1 \<le> ?mv" using Cons.prems(3) by simp
    moreover have "?mv < int (length ?ms)" using Cons.prems(4) range by simp
    ultimately show ?thesis
      using Cons.IH [OF rest] by simp
  qed
qed

lemma loadMigrations_valid:
  assumes "loadMigrations dir = Inr ms"
  shows "ms \<noteq> [] \<and> (\<forall>i<length ms. Version (ms ! i) = int i \<and> UpSQL (ms ! i) \<noteq> [])"
proof -
  from assms obtain entries ms0 mv where
    le: "load_entries entries (replicate (length entries div 2 + 5) zero_Migration) (- 1) = Inr (ms0, mv)" and
    mv: "mv \<noteq> - 1" and
    nf: "find (\<lambda>version. UpSQL (ms0 ! nat version) = []) [0..mv] = None" and
    ms: "ms = take (nat (mv + 1)) ms0"
    by (auto simp: loadMigrations_def split: option.splits sum.splits if_splits prod.splits)
  have "length ms0 = length (replicate (length entries div 2 + 5) zero_Migration) \<and>
        (\<forall>i<length ms0. ms0 ! i = zero_Migration \<or> Version (ms0 ! i) = int i) \<and>
        - 1 \<le> mv \<and> mv < int (length ms0)"
    by (rule load_entries_invariant [OF le]) simp_all
  then have inv: "\<forall>i<length ms0. ms0 ! i = zero_Migration \<or> Version (ms0 ! i) = int i"
    and lo: "- 1 \<le> mv" and hi: "mv < int (length ms0)" by simp_all
  from lo mv have pos: "0 \<le> mv" by simp
  with hi ms have len: "length ms = nat (mv + 1)" by simp
  with pos have "ms \<noteq> []" by auto
  moreover have "Version (ms ! i) = int i \<and> UpSQL (ms ! i) \<noteq> []" if i: "i < length ms" for i
  proof -
    from i len ms have eq: "ms ! i = ms0 ! i" by simp
    from i len have "int i \<in> set [0..mv]" by auto
    with nf have up: "UpSQL (ms0 ! nat (int i)) \<noteq> []"
      by (auto simp: find_None_iff)
    then have "ms0 ! i \<noteq> zero_Migration" by (auto simp: zero_Migration_def)
    moreover from i len hi have "i < length ms0" by simp
    ultimately have "Version (ms0 ! i) = int i" using inv by blast
    with up eq show ?thesis by simp
  qed
  ultimately show ?thesis by blast
qed

lemma Version_nth:
  assumes "\<forall>i<length ms. Version (ms ! i) = int i" and "0 \<le> v" and "v < int (length ms)"
  shows "Version (ms ! nat v) = v"
proof -
  from assms(2,3) have "nat v < length ms" by simp
  with assms(1) have "Version (ms ! nat v) = int (nat v)" by blast
  with assms(2) show ?thesis by simp
qed

lemma find_migration_nth:
  "\<forall>i<length ms. Version (ms ! i) = int i \<Longrightarrow> 0 \<le> v \<Longrightarrow> v < int (length ms) \<Longrightarrow>
   find_migration ms v = Some (ms ! nat v)"
proof (induction ms rule: rev_induct)
  case Nil
  then show ?case by simp
next
  case (snoc x xs)
  from snoc.prems(1) have last: "Version x = int (length xs)"
    by (auto dest: spec [of _ "length xs"])
  have init: "\<forall>i<length xs. Version (xs ! i) = int i"
  proof (intro allI impI)
    fix i assume "i < length xs"
    with snoc.prems(1) show "Version (xs ! i) = int i"
      by (auto dest!: spec [of _ i] simp: nth_append)
  qed
  show ?case
  proof (cases "v = int (length xs)")
    case True
    with last show ?thesis by (simp add: find_migration_def)
  next
    case False
    with snoc.prems(3) have less: "v < int (length xs)" by simp
    from snoc.IH [OF init snoc.prems(2) less] False last less snoc.prems(2)
    show ?thesis by (simp add: find_migration_def nth_append)
  qed
qed

lemma load_entries_Cons_skip:
  assumes "\<forall>v up. \<not> migration_file e v up"
  shows "load_entries (e # es) ms mv = load_entries es ms mv"
proof (cases "IsDir e \<or> length (Name e) < 6")
  case True
  then show ?thesis by auto
next
  case False
  show ?thesis
  proof (cases "Atoi (take 6 (Name e))")
    case None
    with False show ?thesis by simp
  next
    case (Some v)
    with False assms [rule_format, of v True] assms [rule_format, of v False]
    have "\<not> HasSuffix (Name e) ''.up.sql'' \<and> \<not> HasSuffix (Name e) ''.down.sql''"
      by (auto simp: migration_file_def)
    with False Some show ?thesis by simp
  qed
qed

lemma load_entries_Cons_file:
  assumes "migration_file e v up" and "load_entries (e # es) ms mv = Inr res"
  shows "0 \<le> v \<and> v < int (length ms) \<and>
         (\<exists>data. Contents e = Some data \<and>
            load_entries es (store_script ms v up data) (if v > mv then v else mv) = Inr res)"
proof -
  from assms(1) have e: "\<not> IsDir e" "\<not> length (Name e) < 6" "Atoi (take 6 (Name e)) = Some v"
    and suffix: "\<not> (\<not> HasSuffix (Name e) ''.up.sql'' \<and> \<not> HasSuffix (Name e) ''.down.sql'')"
    and up: "HasSuffix (Name e) ''.up.sql'' = up"
    by (auto simp: migration_file_def split: if_splits)
  from e suffix assms(2) have range: "0 \<le> v" "v < int (length ms)"
    by (auto split: if_splits)
  from e suffix range assms(2) obtain data where data: "Contents e = Some data"
    by (cases "Contents e") auto
  from e suffix range data up assms(2)
  have "load_entries es (store_script ms v up data) (if v > mv then v else mv) = Inr res"
    by auto
  with range data show ?thesis by simp
qed

lemma UpSQL_store_script:
  assumes "nat v < length ms" and "i < length ms"
  shows "UpSQL (store_script ms v up data ! i) =
         (if i = nat v \<and> up then data else UpSQL (ms ! i))"
  using assms by (auto simp: store_script_def Let_def zero_Migration_def nth_list_update)

lemma load_entries_sources:
  "load_entries es ms mv = Inr (ms', mv') \<Longrightarrow>
   mv \<le> mv' \<and>
   (\<forall>e \<in> set es. \<forall>v up. migration_file e v up \<longrightarrow> v \<le> mv') \<and>
   (\<forall>i<length ms. UpSQL (ms' ! i) \<noteq> UpSQL (ms ! i) \<longrightarrow>
      (\<exists>e \<in> set es. migration_file e (int i) True \<and> Contents e = Some (UpSQL (ms' ! i))))"
proof (induction es arbitrary: ms mv)
  case Nil
  then show ?case by simp
next
  case (Cons e es)
  show ?case
  proof (cases "\<exists>v up. migration_file e v up")
    case False
    then have "load_entries (e # es) ms mv = load_entries es ms mv"
      by (intro load_entries_Cons_skip) simp
    with Cons.prems have rest: "load_entries es ms mv = Inr (ms', mv')" by simp
    from Cons.IH [OF rest] False show ?thesis by auto
  next
    case True
    then obtain v up where mf: "migration_file e v up" by blast
    from mf have unique: "migration_file e v' up' \<Longrightarrow> v' = v \<and> up' = up" for v' up'
      by (auto simp: migration_file_def split: if_splits)
    let ?mv = "if v > mv then v else mv"
    from load_entries_Cons_file [OF mf Cons.prems] obtain data where
      range: "0 \<le> v" "v < int (length ms)" and
      data: "Contents e = Some data" and
      rest: "load_entries es (store_script ms v up data) ?mv = Inr (ms', mv')"
      by blast
    let ?ms = "store_script ms v up data"
    from Cons.IH [OF rest] have
      mono: "?mv \<le> mv'" and
      below: "\<forall>e \<in> set es. \<forall>v up. migration_file e v up \<longrightarrow> v \<le> mv'" and
      src: "\<forall>i<length ?ms. UpSQL (ms' ! i) \<noteq> UpSQL (?ms ! i) \<longrightarrow>
        (\<exists>e \<in> set es. migration_file e (int i) True \<and> Contents e = Some (UpSQL (ms' ! i)))"
      by simp_all
    from mono have "mv \<le> mv'" "v \<le> mv'" by (simp_all split: if_splits)
    moreover from below unique \<open>v \<le> mv'\<close>
    have "\<forall>e' \<in> set (e # es). \<forall>v up. migration_file e' v up \<longrightarrow> v \<le> mv'"
      by auto
    moreover have "\<exists>e' \<in> set (e # es). migration_file e' (int i) True \<and>
        Contents e' = Some (UpSQL (ms' ! i))"
      if i: "i < length ms" and changed: "UpSQL (ms' ! i) \<noteq> UpSQL (ms ! i)" for i
    proof (cases "UpSQL (ms' ! i) = UpSQL (?ms ! i)")
      case False
      with src i show ?thesis by auto
    next
      case True
      from range have "nat v < length ms" by simp
      from UpSQL_store_script [OF this i, of up data] True changed
      have "i = nat v" "up" "UpSQL (ms' ! i) = data"
        by (auto split: if_splits)
      with mf data range show ?thesis by auto
    qed
    ultimately show ?thesis by blast
  qed
qed

lemma loadMigrations_sources:
  assumes "loadMigrations (Some entries) = Inr ms"
  shows "(\<forall>e \<in> set entries. \<forall>v up. migration_file e v up \<longrightarrow> v \<le> maxVersion ms) \<and>
         (\<forall>v. 0 \<le> v \<and> v \<le> maxVersion ms \<longrightarrow>
            UpSQL (ms ! nat v) \<noteq> [] \<and>
            (\<exists>e \<in> set entries. migration_file e v True \<and> Contents e = Some (UpSQL (ms ! nat v))))"
proof -
  let ?init = "replicate (length entries div 2 + 5) zero_Migration"
  from assms obtain ms0 mv where
    le: "load_entries entries ?init (- 1) = Inr (ms0, mv)" and
    ms: "ms = take (nat (mv + 1)) ms0"
    by (auto simp: loadMigrations_def split: option.splits sum.splits if_splits prod.splits)
  have "length ms0 = length ?init \<and>
        (\<forall>i<length ms0. ms0 ! i = zero_Migration \<or> Version (ms0 ! i) = int i) \<and>
        - 1 \<le> mv \<and> mv < int (length ms0)"
    by (rule load_entries_invariant [OF le]) simp_all
  then have len0: "length ms0 = length ?init" and hi: "mv < int (length ms0)" by simp_all
  from loadMigrations_valid [OF assms]
  have valid: "ms \<noteq> []" "\<forall>i<length ms. UpSQL (ms ! i) \<noteq> []" by simp_all
  from valid(1) ms hi have max: "maxVersion ms = mv"
    by (cases "0 \<le> mv + 1") (auto simp: maxVersion_def)
  from load_entries_sources [OF le] have
    below: "\<forall>e \<in> set entries. \<forall>v up. migration_file e v up \<longrightarrow> v \<le> mv" and
    src: "\<forall>i<length ?init. UpSQL (ms0 ! i) \<noteq> UpSQL (?init ! i) \<longrightarrow>
      (\<exists>e \<in> set entries. migration_file e (int i) True \<and> Contents e = Some (UpSQL (ms0 ! i)))"
    by simp_all
  have "UpSQL (ms ! nat v) \<noteq> [] \<and>
      (\<exists>e \<in> set entries. migration_file e v True \<and> Contents e = Some (UpSQL (ms ! nat v)))"
    if v: "0 \<le> v" "v \<le> maxVersion ms" for v
  proof -
    from v have i: "nat v < length ms" by (simp add: maxVersion_def)
    with valid(2) have nonempty: "UpSQL (ms ! nat v) \<noteq> []" by simp
    from i ms have eq: "ms ! nat v = ms0 ! nat v" by simp
    from i ms have i0: "nat v < length ?init" using len0 by simp
    then have "UpSQL (?init ! nat v) = []" by (simp add: zero_Migration_def)
    with nonempty eq have "UpSQL (ms0 ! nat v) \<noteq> UpSQL (?init ! nat v)" by simp
    with src i0 obtain e where "e \<in> set entries" "migration_file e (int (nat v)) True"
      "Contents e = Some (UpSQL (ms0 ! nat v))" by blast
    with v(1) eq nonempty show ?thesis by auto
  qed
  with below max show ?thesis by simp
qed

lemma loadMigrations_no_files:
  assumes "\<forall>e \<in> set entries. \<forall>v up. \<not> migration_file e v up"
  shows "loadMigrations (Some entries) = Inl NoValidMigrations"
proof -
  have "load_entries es ms mv = Inr (ms, mv)"
    if "\<forall>e \<in> set es. \<forall>v up. \<not> migration_file e v up" for es ms mv
    using that
  proof (induction es)
    case Nil
    then show ?case by simp
  next
    case (Cons e es)
    then have "load_entries (e # es) ms mv = load_entries es ms mv"
      by (intro load_entries_Cons_skip) simp
    with Cons show ?case by simp
  qed
  from this [OF assms] show ?thesis
    by (simp add: loadMigrations_def)
qed

subsection \<open>The recorded version\<close>

lemma GetCurrentVersion_result:
  "GetCurrentVersion env w = (r, w') \<Longrightarrow>
     db w' = db w \<and> trace w' = trace w \<and>
     (r = Inl CtxCancelled \<or> r = Inl QueryError \<or> r = Inr (stored_version (db w)))"
  by (auto simp: GetCurrentVersion_def QueryRow_max_def stored_version_def
      split: if_splits option.splits query_outcome.splits)

lemma GetCurrentVersion_live:
  "\<not> cancelled env w \<Longrightarrow> \<not> fault env (Suc (clock w)) \<Longrightarrow>
     GetCurrentVersion env w = (Inr (stored_version (db w)), tick (tick w))"
  by (auto simp: GetCurrentVersion_def QueryRow_max_def stored_version_def
      split: if_splits option.splits query_outcome.splits)

lemma stored_version_rows_below:
  assumes "migrations_table d = Some rows" and "r \<in> set rows"
  shows "r \<le> stored_version d"
  using assms by (auto simp: stored_version_def)

lemma insert_not_Nil [simp]: "List.insert v rows \<noteq> []"
  by (auto simp: List.insert_def)

lemma stored_version_insert_top:
  assumes "\<forall>r \<in> set rows. r < v"
  shows "stored_version (d\<lparr>migrations_table := Some (List.insert v rows)\<rparr>) = v"
proof -
  have "Max (insert v (set rows)) = v"
    using assms by (intro Max_eqI) auto
  then show ?thesis
    by (simp add: stored_version_def)
qed

subsection \<open>One migration\<close>

lemma exec_statements_world:
  "exec_statements env v i ps d w = (r, w') \<Longrightarrow>
     db w' = db w \<and> clock w \<le> clock w' \<and>
     invoked (trace w') = invoked (trace w) \<and> committed (trace w') = committed (trace w)"
proof (induction ps arbitrary: i d w)
  case Nil
  then show ?case by simp
next
  case (Cons p ps)
  show ?case
  proof (cases "TrimSpace p = []")
    case True
    with Cons.prems have "exec_statements env v (i + 1) ps d w = (r, w')" by simp
    from Cons.IH [OF this] show ?thesis .
  next
    case False
    show ?thesis
    proof (cases "fault env (clock w)")
      case True
      with False Cons.prems show ?thesis by (auto simp: Let_def)
    next
      case nofault: False
      show ?thesis
      proof (cases "sql_exec env (TrimSpace p) d")
        case None
        with False nofault Cons.prems show ?thesis by (auto simp: Let_def)
      next
        case (Some d')
        with False nofault Cons.prems
        have "exec_statements env v (i + 1) ps d' (tick (observe (Exec (TrimSpace p)) w)) = (r, w')"
          by (simp add: Let_def)
        from Cons.IH [OF this] show ?thesis by simp
      qed
    qed
  qed
qed

lemma exec_statements_table:
  "exec_statements env v i ps d w = (Inr d', w') \<Longrightarrow>
   (\<forall>p \<in> set ps. TrimSpace p \<noteq> [] \<longrightarrow>
      (\<forall>d d'. sql_exec env (TrimSpace p) d = Some d' \<longrightarrow>
         migrations_table d' = migrations_table d)) \<Longrightarrow>
   migrations_table d' = migrations_table d"
proof (induction ps arbitrary: i d w)
  case Nil
  then show ?case by simp
next
  case (Cons p ps)
  show ?case
  proof (cases "TrimSpace p = []")
    case True
    with Cons.prems(1) have "exec_statements env v (i + 1) ps d w = (Inr d', w')" by simp
    from Cons.IH [OF this] Cons.prems(2) show ?thesis by simp
  next
    case False
    with Cons.prems(1) obtain d1 where
      d1: "sql_exec env (TrimSpace p) d = Some d1" and
      rest: "exec_statements env v (i + 1) ps d1 (tick (observe (Exec (TrimSpace p)) w)) = (Inr d', w')"
      by (auto simp: Let_def split: if_splits option.splits)
    from Cons.IH [OF rest] Cons.prems(2) have "migrations_table d' = migrations_table d1" by simp
    moreover from d1 False Cons.prems(2) have "migrations_table d1 = migrations_table d" by simp
    ultimately show ?thesis by simp
  qed
qed

lemma exec_statements_error:
  "exec_statements env v i ps d w = (Inl e, w') \<Longrightarrow>
   \<exists>k. i < k \<and> k \<le> i + length ps \<and> TrimSpace (ps ! (k - 1 - i)) \<noteq> [] \<and>
       e = ScriptExecutionError v k (TrimSpace (ps ! (k - 1 - i)))"
proof (induction ps arbitrary: i d w)
  case Nil
  then show ?case by simp
next
  case (Cons p ps)
  show ?case
  proof (cases "e = ScriptExecutionError v (i + 1) (TrimSpace p) \<and> TrimSpace p \<noteq> []")
    case True
    then show ?thesis by (intro exI [of _ "i + 1"]) simp
  next
    case False
    with Cons.prems obtain d1 w1 where
      rest: "exec_statements env v (i + 1) ps d1 w1 = (Inl e, w')"
      by (auto simp: Let_def split: if_splits option.splits)
    from Cons.IH [OF rest] obtain k where
      k: "i + 1 < k" "k \<le> i + 1 + length ps" "TrimSpace (ps ! (k - 1 - (i + 1))) \<noteq> []"
         "e = ScriptExecutionError v k (TrimSpace (ps ! (k - 1 - (i + 1))))"
      by blast
    from k(1) have "(p # ps) ! (k - 1 - i) = ps ! (k - 1 - (i + 1))"
      by (simp add: nth_Cons')
    with k show ?thesis by (intro exI [of _ k]) simp
  qed
qed

lemma exec_statements_succeeds:
  "healthy env \<Longrightarrow>
   \<forall>p \<in> set ps. TrimSpace p \<noteq> [] \<longrightarrow> (\<forall>d. sql_exec env (TrimSpace p) d \<noteq> None) \<Longrightarrow>
   \<exists>d' w'. exec_statements env v i ps d w = (Inr d', w')"
proof (induction ps arbitrary: i d w)
  case Nil
  then show ?case by simp
next
  case (Cons p ps)
  show ?case
  proof (cases "TrimSpace p = []")
    case True
    with Cons.IH [OF Cons.prems(1), of "i + 1" d w] Cons.prems(2) show ?thesis by simp
  next
    case False
    from Cons.prems(2) False obtain d1 where d1: "sql_exec env (TrimSpace p) d = Some d1"
      by fastforce
    from Cons.IH [OF Cons.prems(1), of "i + 1" d1 "tick (observe (Exec (TrimSpace p)) w)"]
      Cons.prems False d1
    show ?thesis by (simp add: Let_def)
  qed
qed

text \<open>
  The loop over the statements stops at the first statement that fails: when the
  statements before piece \<open>k\<close> succeed and the statement of piece \<open>k\<close> fails, the
  loop returns the error of that piece, having sent the statements up to it.
\<close>

lemma sent_statements_Cons:
  "sent_statements (p # ps) =
     (if TrimSpace p = [] then sent_statements ps else TrimSpace p # sent_statements ps)"
  by (simp add: sent_statements_def)

lemma exec_statements_fails_at:
  "k < length ps \<Longrightarrow> TrimSpace (ps ! k) \<noteq> [] \<Longrightarrow>
   statements_state env (sent_statements (take k ps)) d = Some dk \<Longrightarrow>
   \<forall>j < length (sent_statements (take k ps)). \<not> fault env (clock w + j) \<Longrightarrow>
   fault env (clock w + length (sent_statements (take k ps))) \<or>
     sql_exec env (TrimSpace (ps ! k)) dk = None \<Longrightarrow>
   \<exists>w'. exec_statements env v i ps d w =
          (Inl (ScriptExecutionError v (i + k + 1) (TrimSpace (ps ! k))), w') \<and>
        executed (trace w') = executed (trace w) @ sent_statements (take (Suc k) ps)"
proof (induction ps arbitrary: k i d w)
  case Nil
  then show ?case by simp
next
  case (Cons p ps)
  show ?case
  proof (cases k)
    case 0
    with Cons.prems show ?thesis
      by (auto simp: Let_def sent_statements_def)
  next
    case (Suc k')
    with Cons.prems(1,2) have k': "k' < length ps" "TrimSpace (ps ! k') \<noteq> []" by simp_all
    show ?thesis
    proof (cases "TrimSpace p = []")
      case True
      with Suc Cons.prems(3-5) have
        "statements_state env (sent_statements (take k' ps)) d = Some dk"
        "\<forall>j < length (sent_statements (take k' ps)). \<not> fault env (clock w + j)"
        "fault env (clock w + length (sent_statements (take k' ps))) \<or>
           sql_exec env (TrimSpace (ps ! k')) dk = None"
        by (simp_all add: sent_statements_Cons)
      from Cons.IH [OF k' this, of "i + 1"] True Suc show ?thesis
        by (simp add: sent_statements_Cons)
    next
      case False
      let ?w = "tick (observe (Exec (TrimSpace p)) w)"
      from False Suc Cons.prems(3) obtain d1 where
        d1: "sql_exec env (TrimSpace p) d = Some d1" and
        st: "statements_state env (sent_statements (take k' ps)) d1 = Some dk"
        by (auto simp: sent_statements_Cons split: option.splits)
      from False Suc Cons.prems(4) have nofault: "\<not> fault env (clock w)"
        by (auto simp: sent_statements_Cons dest: spec [of _ 0])
      have later: "\<forall>j < length (sent_statements (take k' ps)). \<not> fault env (clock ?w + j)"
      proof (intro allI impI)
        fix j assume "j < length (sent_statements (take k' ps))"
        with False Suc Cons.prems(4) have "\<not> fault env (clock w + Suc j)"
          by (auto simp: sent_statements_Cons)
        then show "\<not> fault env (clock ?w + j)" by simp
      qed
      from False Suc Cons.prems(5)
      have fails: "fault env (clock ?w + length (sent_statements (take k' ps))) \<or>
          sql_exec env (TrimSpace (ps ! k')) dk = None"
        by (simp add: sent_statements_Cons)
      from Cons.IH [OF k' st later fails, of "i + 1"] False d1 nofault Suc show ?thesis
        by (simp add: Let_def sent_statements_Cons)
    qed
  qed
qed

lemma update_version_world:
  "update_version env v up d w = (r, w') \<Longrightarrow>
     db w' = db w \<and> clock w' = Suc (clock w) \<and>
     invoked (trace w') = invoked (trace w) \<and> committed (trace w') = committed (trace w)"
  by (auto simp: update_version_def split: if_splits option.splits)

lemma update_version_table:
  "update_version env v up d w = (Inr d', w') \<Longrightarrow>
     \<exists>rows. migrations_table d = Some rows \<and>
       migrations_table d' = Some (if up then List.insert v rows else removeAll v rows)"
  by (auto simp: update_version_def split: if_splits option.splits)

lemma applyMigration_failure:
  assumes "applyMigration env m up cv w = (Inl e, w')"
  shows "db w' = db w \<and> committed (trace w') = committed (trace w)"
proof -
  let ?w = "observe (Invoke (Version m) up) w"
  let ?sql = "if up then UpSQL m else DownSQL m"
  show ?thesis
  proof (cases "cancelled env ?w \<or> TrimSpace ?sql = [] \<or> fault env (clock (tick ?w))")
    case True
    with assms show ?thesis
      by (auto simp: applyMigration_def Let_def split: if_splits)
  next
    case False
    obtain r1 w1 where
      ex: "exec_statements env (Version m) 0 (Split ?sql CHR '';'') (db ?w) (tick (tick ?w)) = (r1, w1)"
      by force
    from exec_statements_world [OF ex]
    have w1: "db w1 = db w" "committed (trace w1) = committed (trace w)" by simp_all
    show ?thesis
    proof (cases r1)
      case (Inl e1)
      with False ex assms have "w' = w1"
        by (auto simp: applyMigration_def Let_def split: if_splits)
      with w1 show ?thesis by simp
    next
      case (Inr d1)
      obtain r2 w2 where up: "update_version env (Version m) up d1 w1 = (r2, w2)" by force
      from update_version_world [OF up] w1
      have w2: "db w2 = db w" "committed (trace w2) = committed (trace w)" by simp_all
      show ?thesis
      proof (cases r2)
        case (Inl e2)
        with False ex Inr up assms have "w' = w2"
          by (auto simp: applyMigration_def Let_def split: if_splits)
        with w2 show ?thesis by simp
      next
        case r2: (Inr d2)
        with False ex Inr up assms have "w' = tick w2"
          by (auto simp: applyMigration_def Let_def split: if_splits)
        with w2 show ?thesis by simp
      qed
    qed
  qed
qed

lemma applyMigration_Inr:
  assumes "applyMigration env m up cv w = (Inr u, w')"
  obtains d1 w1 d2 w2 where
    "exec_statements env (Version m) 0 (Split (if up then UpSQL m else DownSQL m) CHR '';'')
       (db w) (tick (tick (observe (Invoke (Version m) up) w))) = (Inr d1, w1)"
    "update_version env (Version m) up d1 w1 = (Inr d2, w2)"
    "w' = tick (observe (Committed (Version m) up) (w2\<lparr>db := d2\<rparr>))"
  using assms
  by (auto simp: applyMigration_def Let_def split: if_splits prod.splits sum.splits)

lemma applyMigration_success:
  assumes ok: "applyMigration env m up cv w = (Inr u, w')"
      and pres: "preserves_table env (if up then UpSQL m else DownSQL m)"
  shows "\<exists>rows. migrations_table (db w) = Some rows \<and>
           migrations_table (db w') =
             Some (if up then List.insert (Version m) rows else removeAll (Version m) rows)"
proof -
  from ok obtain d1 w1 d2 w2 where
    ex: "exec_statements env (Version m) 0 (Split (if up then UpSQL m else DownSQL m) CHR '';'')
           (db w) (tick (tick (observe (Invoke (Version m) up) w))) = (Inr d1, w1)" and
    upd: "update_version env (Version m) up d1 w1 = (Inr d2, w2)" and
    w': "w' = tick (observe (Committed (Version m) up) (w2\<lparr>db := d2\<rparr>))"
    by (rule applyMigration_Inr)
  from pres have "\<forall>p \<in> set (Split (if up then UpSQL m else DownSQL m) CHR '';'').
      TrimSpace p \<noteq> [] \<longrightarrow>
      (\<forall>d d'. sql_exec env (TrimSpace p) d = Some d' \<longrightarrow> migrations_table d' = migrations_table d)"
    by (simp add: preserves_table_def)
  from exec_statements_table [OF ex this]
  have "migrations_table d1 = migrations_table (db w)" .
  with update_version_table [OF upd] w' show ?thesis
    by (auto simp: tick_def observe_def)
qed

lemma applyMigration_committed:
  assumes ok: "applyMigration env m up cv w = (Inr u, w')"
  shows "committed (trace w') = committed (trace w) @ [(Version m, up)]"
proof -
  from ok obtain d1 w1 d2 w2 where
    ex: "exec_statements env (Version m) 0 (Split (if up then UpSQL m else DownSQL m) CHR '';'')
           (db w) (tick (tick (observe (Invoke (Version m) up) w))) = (Inr d1, w1)" and
    upd: "update_version env (Version m) up d1 w1 = (Inr d2, w2)" and
    w': "w' = tick (observe (Committed (Version m) up) (w2\<lparr>db := d2\<rparr>))"
    by (rule applyMigration_Inr)
  from exec_statements_world [OF ex] update_version_world [OF upd] w'
  show ?thesis by (simp add: tick_def observe_def)
qed

lemma applyMigration_invoked:
  assumes "applyMigration env m up cv w = (r, w')"
  shows "invoked (trace w') = invoked (trace w) @ [(Version m, up)]"
proof -
  let ?w = "observe (Invoke (Version m) up) w"
  let ?sql = "if up then UpSQL m else DownSQL m"
  have start: "invoked (trace ?w) = invoked (trace w) @ [(Version m, up)]" by simp
  show ?thesis
  proof (cases "cancelled env ?w \<or> TrimSpace ?sql = [] \<or> fault env (clock (tick ?w))")
    case True
    with assms show ?thesis
      by (auto simp: applyMigration_def Let_def split: if_splits)
  next
    case False
    obtain r1 w1 where
      ex: "exec_statements env (Version m) 0 (Split ?sql CHR '';'') (db ?w) (tick (tick ?w)) = (r1, w1)"
      by force
    from exec_statements_world [OF ex] start
    have w1: "invoked (trace w1) = invoked (trace w) @ [(Version m, up)]" by simp
    show ?thesis
    proof (cases r1)
      case (Inl e1)
      with False ex assms have "w' = w1"
        by (auto simp: applyMigration_def Let_def split: if_splits)
      with w1 show ?thesis by simp
    next
      case (Inr d1)
      obtain r2 w2 where up: "update_version env (Version m) up d1 w1 = (r2, w2)" by force
      from update_version_world [OF up] w1
      have w2: "invoked (trace w2) = invoked (trace w) @ [(Version m, up)]" by simp
      show ?thesis
      proof (cases r2)
        case (Inl e2)
        with False ex Inr up assms have "w' = w2"
          by (auto simp: applyMigration_def Let_def split: if_splits)
        with w2 show ?thesis by simp
      next
        case r2: (Inr d2)
        with False ex Inr up assms
        have "w' = tick w2 \<or> w' = tick (observe (Committed (Version m) up) (w2\<lparr>db := d2\<rparr>))"
          by (auto simp: applyMigration_def Let_def split: if_splits)
        with w2 show ?thesis by (auto simp: tick_def observe_def)
      qed
    qed
  qed
qed

lemma applyMigration_healthy:
  assumes h: "healthy env"
      and nonblank: "TrimSpace (if up then UpSQL m else DownSQL m) \<noteq> []"
      and ok: "succeeds env (if up then UpSQL m else DownSQL m)"
      and pres: "preserves_table env (if up then UpSQL m else DownSQL m)"
      and rows: "migrations_table (db w) = Some rows"
  shows "\<exists>w'. applyMigration env m up cv w = (Inr (), w') \<and>
           migrations_table (db w') =
             Some (if up then List.insert (Version m) rows else removeAll (Version m) rows) \<and>
           committed (trace w') = committed (trace w) @ [(Version m, up)]"
proof -
  let ?sql = "if up then UpSQL m else DownSQL m"
  let ?w = "observe (Invoke (Version m) up) w"
  from ok have "\<forall>p \<in> set (Split ?sql CHR '';''). TrimSpace p \<noteq> [] \<longrightarrow>
      (\<forall>d. sql_exec env (TrimSpace p) d \<noteq> None)"
    by (simp add: succeeds_def)
  from exec_statements_succeeds [OF h this] obtain d1 w1 where
    ex: "exec_statements env (Version m) 0 (Split ?sql CHR '';'') (db ?w) (tick (tick ?w)) = (Inr d1, w1)"
    by blast
  from pres have "\<forall>p \<in> set (Split ?sql CHR '';''). TrimSpace p \<noteq> [] \<longrightarrow>
      (\<forall>d d'. sql_exec env (TrimSpace p) d = Some d' \<longrightarrow> migrations_table d' = migrations_table d)"
    by (simp add: preserves_table_def)
  from exec_statements_table [OF ex this] rows
  have d1: "migrations_table d1 = Some rows" by simp
  with h have "\<exists>d2 w2. update_version env (Version m) up d1 w1 = (Inr d2, w2)"
    by (simp add: update_version_def)
  then obtain d2 w2 where upd: "update_version env (Version m) up d1 w1 = (Inr d2, w2)"
    by blast
  from h nonblank ex upd
  have run: "applyMigration env m up cv w =
      (Inr (), tick (observe (Committed (Version m) up) (w2\<lparr>db := d2\<rparr>)))"
    by (simp add: applyMigration_def Let_def)
  from applyMigration_success [OF run pres] rows applyMigration_committed [OF run] run
  show ?thesis by auto
qed

subsection \<open>Forward runs\<close>

lemma Up_loop_reaches_end:
  "Up_loop env ms cv version w = (Inr (), w') \<Longrightarrow>
   \<forall>i<length ms. Version (ms ! i) = int i \<Longrightarrow>
   \<forall>v. version \<le> v \<and> v < int (length ms) \<longrightarrow> preserves_table env (UpSQL (ms ! nat v)) \<Longrightarrow>
   0 \<le> version \<Longrightarrow> version < int (length ms) \<Longrightarrow>
   \<forall>rows. migrations_table (db w) = Some rows \<longrightarrow> (\<forall>r \<in> set rows. r < version) \<Longrightarrow>
   stored_version (db w') = int (length ms) - 1"
proof (induction env ms cv version w rule: Up_loop.induct)
  case (1 env ms cv version w)
  from "1.prems"(1,4,5) obtain u w1 where
    ap: "applyMigration env (ms ! nat version) True cv (tick w) = (Inr u, w1)" and
    live: "\<not> cancelled env w" and
    rest: "Up_loop env ms version (version + 1) w1 = (Inr (), w')"
    by (subst (asm) Up_loop.simps) (auto split: if_splits prod.splits sum.splits)
  from "1.prems"(2,4,5) have ver: "Version (ms ! nat version) = version" by simp
  from "1.prems"(3,4,5) have "preserves_table env (UpSQL (ms ! nat version))" by simp
  with applyMigration_success [OF ap] ver obtain rows where
    rows: "migrations_table (db w) = Some rows" and
    rows1: "migrations_table (db w1) = Some (List.insert version rows)"
    by auto
  from rows "1.prems"(6) have below: "\<forall>r \<in> set rows. r < version" by simp
  show ?case
  proof (cases "version + 1 < int (length ms)")
    case True
    have "\<forall>rows. migrations_table (db w1) = Some rows \<longrightarrow> (\<forall>r \<in> set rows. r < version + 1)"
      using rows1 below by auto
    moreover have "\<forall>v. version + 1 \<le> v \<and> v < int (length ms) \<longrightarrow>
        preserves_table env (UpSQL (ms ! nat v))"
      using "1.prems"(3) by simp
    ultimately show ?thesis
      using "1.IH" [OF "1.prems"(5) _ live _ _ rest "1.prems"(2)] "1.prems"(4) True ap
      by simp
  next
    case False
    with rest have "w' = w1"
      by (subst (asm) Up_loop.simps) simp
    moreover have "db w1 = (db w1)\<lparr>migrations_table := Some (List.insert version rows)\<rparr>"
      using rows1 by simp
    moreover note stored_version_insert_top [OF below, of "db w1"]
    ultimately show ?thesis
      using False "1.prems"(5) by simp
  qed
qed

lemma Up_loop_invoked:
  "Up_loop env ms cv version w = (r, w') \<Longrightarrow>
   \<forall>i<length ms. Version (ms ! i) = int i \<Longrightarrow>
   \<exists>vs. invoked (trace w') = invoked (trace w) @ map (\<lambda>v. (v, True)) vs \<and>
        (\<forall>v \<in> set vs. version \<le> v) \<and> (vs \<noteq> [] \<longrightarrow> hd vs = version) \<and>
        (version < int (length ms) \<and> 0 \<le> version \<and> \<not> cancelled env w \<longrightarrow> vs \<noteq> [])"
proof (induction env ms cv version w rule: Up_loop.induct)
  case (1 env ms cv version w)
  show ?case
  proof (cases "version < int (length ms) \<and> \<not> version < 0 \<and> \<not> cancelled env w")
    case False
    with "1.prems"(1) have "trace w' = trace w"
      by (subst (asm) Up_loop.simps) (auto split: if_splits)
    with False show ?thesis by (intro exI [of _ "[]"]) auto
  next
    case True
    obtain r1 w1 where
      ap: "applyMigration env (ms ! nat version) True cv (tick w) = (r1, w1)" by force
    from True "1.prems"(2) have "Version (ms ! nat version) = version"
      by (intro Version_nth) simp_all
    with applyMigration_invoked [OF ap]
    have w1: "invoked (trace w1) = invoked (trace w) @ [(version, True)]" by simp
    show ?thesis
    proof (cases r1)
      case (Inl e)
      with True ap "1.prems"(1) have "w' = w1"
        by (subst (asm) Up_loop.simps) simp
      with w1 show ?thesis by (intro exI [of _ "[version]"]) simp
    next
      case (Inr u)
      with True ap "1.prems"(1) have rest: "Up_loop env ms version (version + 1) w1 = (r, w')"
        by (subst (asm) Up_loop.simps) simp
      from True Inr ap have "\<exists>vs. invoked (trace w') = invoked (trace w1) @ map (\<lambda>v. (v, True)) vs \<and>
          (\<forall>v \<in> set vs. version + 1 \<le> v) \<and> (vs \<noteq> [] \<longrightarrow> hd vs = version + 1) \<and>
          (version + 1 < int (length ms) \<and> 0 \<le> version + 1 \<and> \<not> cancelled env w1 \<longrightarrow> vs \<noteq> [])"
        by (intro "1.IH" [OF _ _ _ _ _ rest "1.prems"(2)]) simp_all
      then obtain vs where
        vs: "invoked (trace w') = invoked (trace w1) @ map (\<lambda>v. (v, True)) vs"
            "\<forall>v \<in> set vs. version + 1 \<le> v" by blast
      with w1 show ?thesis by (intro exI [of _ "version # vs"]) auto
    qed
  qed
qed

lemma Steps_forward_invoked:
  "Steps_forward env ms steps i cv w = (r, w') \<Longrightarrow>
   \<forall>i<length ms. Version (ms ! i) = int i \<Longrightarrow> 0 \<le> i \<Longrightarrow>
   \<exists>vs. invoked (trace w') = invoked (trace w) @ map (\<lambda>v. (v, True)) vs \<and>
        (\<forall>v \<in> set vs. cv + 1 + i \<le> v) \<and> (vs \<noteq> [] \<longrightarrow> hd vs = cv + 1 + i) \<and>
        (i < steps \<and> cv + 1 + i < int (length ms) \<and> 0 \<le> cv + 1 + i \<and> \<not> cancelled env w
           \<longrightarrow> vs \<noteq> [])"
proof (induction env ms steps i cv w rule: Steps_forward.induct)
  case (1 env ms steps i cv w)
  let ?version = "cv + 1 + i"
  show ?case
  proof (cases "i < steps \<and> ?version < int (length ms) \<and> \<not> ?version < 0 \<and> \<not> cancelled env w")
    case False
    with "1.prems"(1) have "trace w' = trace w"
      by (subst (asm) Steps_forward.simps) (auto simp: Let_def split: if_splits)
    with False show ?thesis by (intro exI [of _ "[]"]) auto
  next
    case True
    obtain r1 w1 where
      ap: "applyMigration env (ms ! nat ?version) True cv (tick w) = (r1, w1)" by force
    from True "1.prems"(2) have "Version (ms ! nat ?version) = ?version"
      by (intro Version_nth) simp_all
    with applyMigration_invoked [OF ap]
    have w1: "invoked (trace w1) = invoked (trace w) @ [(?version, True)]" by simp
    show ?thesis
    proof (cases r1)
      case (Inl e)
      with True ap "1.prems"(1) have "w' = w1"
        by (subst (asm) Steps_forward.simps) (simp add: Let_def)
      with w1 show ?thesis by (intro exI [of _ "[?version]"]) simp
    next
      case (Inr u)
      with True ap "1.prems"(1)
      have rest: "Steps_forward env ms steps (i + 1) ?version w1 = (r, w')"
        by (subst (asm) Steps_forward.simps) (simp add: Let_def)
      from True Inr ap "1.prems"(3)
      have "\<exists>vs. invoked (trace w') = invoked (trace w1) @ map (\<lambda>v. (v, True)) vs \<and>
          (\<forall>v \<in> set vs. ?version + 1 + (i + 1) \<le> v) \<and>
          (vs \<noteq> [] \<longrightarrow> hd vs = ?version + 1 + (i + 1)) \<and>
          (i + 1 < steps \<and> ?version + 1 + (i + 1) < int (length ms) \<and>
             0 \<le> ?version + 1 + (i + 1) \<and> \<not> cancelled env w1 \<longrightarrow> vs \<noteq> [])"
        by (intro "1.IH" [OF _ refl _ _ _ _ rest "1.prems"(2)]) simp_all
      then obtain vs where
        vs: "invoked (trace w') = invoked (trace w1) @ map (\<lambda>v. (v, True)) vs"
            "\<forall>v \<in> set vs. ?version + 1 + (i + 1) \<le> v" by blast
      from vs(2) "1.prems"(3) have "\<forall>v \<in> set vs. ?version \<le> v" by auto
      with vs(1) w1 show ?thesis by (intro exI [of _ "?version # vs"]) auto
    qed
  qed
qed

text \<open>
  A successful \<^verbatim>\<open>Up\<close> commits every version from the one it starts at to the last,
  in increasing order and skipping none: its loop advances a variable of its own.
\<close>

lemma Up_loop_committed:
  "Up_loop env ms cv version w = (Inr (), w') \<Longrightarrow>
   \<forall>i<length ms. Version (ms ! i) = int i \<Longrightarrow> 0 \<le> version \<Longrightarrow>
   committed (trace w') =
     committed (trace w) @ map (\<lambda>v. (v, True)) [version..int (length ms) - 1]"
proof (induction env ms cv version w rule: Up_loop.induct)
  case (1 env ms cv version w)
  show ?case
  proof (cases "version < int (length ms)")
    case False
    with "1.prems"(1) have "w' = w"
      by (subst (asm) Up_loop.simps) simp
    with False show ?thesis by simp
  next
    case True
    with "1.prems"(1,3) obtain u w1 where
      ap: "applyMigration env (ms ! nat version) True cv (tick w) = (Inr u, w1)" and
      live: "\<not> cancelled env w" and
      rest: "Up_loop env ms version (version + 1) w1 = (Inr (), w')"
      by (subst (asm) Up_loop.simps) (auto split: if_splits prod.splits sum.splits)
    from Version_nth [OF "1.prems"(2,3) True] applyMigration_committed [OF ap]
    have c1: "committed (trace w1) = committed (trace w) @ [(version, True)]" by simp
    from "1.prems"(3) True live ap
    have "committed (trace w') =
        committed (trace w1) @ map (\<lambda>v. (v, True)) [version + 1..int (length ms) - 1]"
      by (intro "1.IH" [OF _ _ _ _ _ rest "1.prems"(2)]) simp_all
    moreover from True have "[version..int (length ms) - 1] =
        version # [version + 1..int (length ms) - 1]"
      by (simp add: upto_rec1)
    ultimately show ?thesis using c1 by simp
  qed
qed

lemma Up_committed:
  assumes "loadMigrations dir = Inr migrations" and "0 \<le> stored_version (db w)"
      and "Up env migrations w = (Inr (), w')"
  shows "committed (trace w') =
    committed (trace w) @ map (\<lambda>v. (v, True)) [stored_version (db w) + 1..maxVersion migrations]"
proof -
  from loadMigrations_valid [OF assms(1)]
  have valid: "\<forall>i<length migrations. Version (migrations ! i) = int i" by simp
  from assms(3) obtain cv w1 where
    gv: "GetCurrentVersion env (tick w) = (Inr cv, w1)" and
    loop: "Up_loop env migrations cv (cv + 1) w1 = (Inr (), w')"
    by (auto simp: Up_def split: if_splits prod.splits sum.splits)
  from GetCurrentVersion_result [OF gv]
  have "trace w1 = trace w" "cv = stored_version (db w)" by simp_all
  with Up_loop_committed [OF loop valid] assms(2) show ?thesis
    by (simp add: maxVersion_def)
qed

subsection \<open>Rolling back\<close>

lemma Down_before_lookup:
  assumes "Down env ms w = (r, w')"
  shows "(r = Inl CtxCancelled \<or> r = Inl (BeforeRollingBack CtxCancelled) \<or>
          r = Inl (BeforeRollingBack QueryError)) \<and> db w' = db w \<and> trace w' = trace w \<and>
          \<not> healthy env
         \<or> (\<exists>w1. db w1 = db w \<and> trace w1 = trace w \<and>
               GetCurrentVersion env (tick w) = (Inr (stored_version (db w)), w1) \<and>
               \<not> cancelled env w)"
proof (cases "cancelled env w")
  case True
  with assms have "r = Inl CtxCancelled" "w' = tick w" by (simp_all add: Down_def)
  moreover from True have "\<not> healthy env" by auto
  ultimately show ?thesis by simp
next
  case live: False
  obtain r1 w1 where gv: "GetCurrentVersion env (tick w) = (r1, w1)" by force
  from GetCurrentVersion_result [OF gv]
  have same: "db w1 = db w" "trace w1 = trace w" and
    r1: "r1 = Inl CtxCancelled \<or> r1 = Inl QueryError \<or> r1 = Inr (stored_version (db w))"
    by simp_all
  show ?thesis
  proof (cases r1)
    case (Inl e)
    with live gv assms have "r = Inl (BeforeRollingBack e)" "w' = w1" by (simp_all add: Down_def)
    moreover have "\<not> healthy env"
    proof
      assume "healthy env"
      then have "GetCurrentVersion env (tick w) =
          (Inr (stored_version (db (tick w))), tick (tick (tick w)))"
        by (intro GetCurrentVersion_live) simp_all
      with gv Inl show False by simp
    qed
    ultimately show ?thesis using same r1 Inl by auto
  next
    case (Inr v)
    with r1 gv same live show ?thesis by auto
  qed
qed

lemma Steps_rollback_runs_out:
  assumes valid: "\<forall>i<length ms. Version (ms ! i) = int i"
      and h: "healthy env"
  shows "0 \<le> cv \<Longrightarrow> cv < int (length ms) \<Longrightarrow> cv < k - i \<Longrightarrow>
         \<forall>u. 1 \<le> u \<and> u \<le> cv \<longrightarrow>
           TrimSpace (DownSQL (ms ! nat u)) \<noteq> [] \<and> succeeds env (DownSQL (ms ! nat u)) \<and>
           preserves_table env (DownSQL (ms ! nat u)) \<Longrightarrow>
         0 < cv \<longrightarrow> migrations_table (db w) \<noteq> None \<Longrightarrow>
         \<exists>w'. Steps_rollback env ms k i cv w = (Inl NoMigrations, w') \<and>
              committed (trace w') = committed (trace w) @ map (\<lambda>u. (u, False)) (rev [1..cv]) \<and>
              migrations_table (db w') =
                map_option (filter (\<lambda>r. r < 1 \<or> cv < r)) (migrations_table (db w))"
proof (induction "nat cv" arbitrary: cv i w)
  case 0
  then have cv: "cv = 0" by simp
  with "0.prems"(3) have "Steps_rollback env ms k i cv w = (Inl NoMigrations, w)"
    by (subst Steps_rollback.simps) simp
  moreover have "filter (\<lambda>r::int. r < 1 \<or> 0 < r) rows = rows" for rows
    by (induction rows) auto
  ultimately show ?case using cv
    by (cases "migrations_table (db w)") auto
next
  case (Suc n)
  then have pos: "0 < cv" by simp
  let ?m = "ms ! nat cv"
  from find_migration_nth [OF valid Suc.prems(1,2)]
  have found: "find_migration ms cv = Some ?m" .
  from Version_nth [OF valid Suc.prems(1,2)] have ver: "Version ?m = cv" .
  from Suc.prems(4) pos have script:
    "TrimSpace (DownSQL ?m) \<noteq> []" "succeeds env (DownSQL ?m)" "preserves_table env (DownSQL ?m)"
    by simp_all
  from Suc.prems(5) pos obtain rows where rows: "migrations_table (db w) = Some rows"
    by auto
  then have rows': "migrations_table (db (tick w)) = Some rows" by simp
  from applyMigration_healthy [of env False ?m "tick w" rows cv, OF h] script rows' ver
  obtain w1 where
    ap: "applyMigration env ?m False cv (tick w) = (Inr (), w1)" and
    t1: "migrations_table (db w1) = Some (removeAll cv rows)" and
    c1: "committed (trace w1) = committed (trace w) @ [(cv, False)]"
    by auto
  have "\<exists>w'. Steps_rollback env ms k (i + 1) (cv - 1) w1 = (Inl NoMigrations, w') \<and>
      committed (trace w') = committed (trace w1) @ map (\<lambda>u. (u, False)) (rev [1..cv - 1]) \<and>
      migrations_table (db w') =
        map_option (filter (\<lambda>r. r < 1 \<or> cv - 1 < r)) (migrations_table (db w1))"
    using Suc.hyps(2) Suc.prems t1 by (intro Suc.hyps(1)) auto
  then obtain w' where
    rest: "Steps_rollback env ms k (i + 1) (cv - 1) w1 = (Inl NoMigrations, w')" and
    c': "committed (trace w') = committed (trace w1) @ map (\<lambda>u. (u, False)) (rev [1..cv - 1])" and
    t': "migrations_table (db w') =
           map_option (filter (\<lambda>r. r < 1 \<or> cv - 1 < r)) (migrations_table (db w1))"
    by blast
  from Suc.prems(3) pos h found script(1) ap ver rest
  have run: "Steps_rollback env ms k i cv w = (Inl NoMigrations, w')"
    by (subst Steps_rollback.simps) simp
  from pos have "[1..cv] = [1..cv - 1] @ [cv]"
    by (simp add: upto_rec2)
  with c' c1 have c: "committed (trace w') =
      committed (trace w) @ map (\<lambda>u. (u, False)) (rev [1..cv])" by simp
  have "filter (\<lambda>r. r < 1 \<or> cv - 1 < r) (removeAll cv rows) = filter (\<lambda>r. r < 1 \<or> cv < r) rows"
    using pos by (induction rows) auto
  with t' t1 rows have "migrations_table (db w') =
      map_option (filter (\<lambda>r. r < 1 \<or> cv < r)) (migrations_table (db w))" by simp
  with run c show ?case by blast
qed

subsection \<open>The concrete setting\<close>

lemmas loader_eval =
  loadMigrations_def store_script_def Atoi_def digit_value_def HasSuffix_def zero_Migration_def

lemma demo_loaded: "loadMigrations (Some demo_dir) = Inr demo_migrations"
  by (simp add: loader_eval demo_dir_def demo_migrations_def upto.simps eval_nat_numeral)

lemma demo_max: "maxVersion demo_migrations = 3"
  by (simp add: maxVersion_def demo_migrations_def)

lemma demo_env_preserves: "preserves_table demo_env sql"
  by (auto simp: preserves_table_def demo_env_def demo_exec_def split: if_splits)

lemma demo_env_healthy: "healthy demo_env"
  by (simp add: healthy_def demo_env_def)

lemma demo_env_succeeds:
  "succeeds demo_env sql \<longleftrightarrow> list_all (\<lambda>p. TrimSpace p \<noteq> ''FAIL'') (Split sql CHR '';'')"
  by (auto simp: succeeds_def demo_env_def demo_exec_def list_all_iff)

lemma demo_down_scripts:
  assumes "1 \<le> u" and "u \<le> 3"
  shows "TrimSpace (DownSQL (demo_migrations ! nat u)) \<noteq> [] \<and>
         succeeds demo_env (DownSQL (demo_migrations ! nat u)) \<and>
         preserves_table demo_env (DownSQL (demo_migrations ! nat u))"
proof -
  from assms have "u = 1 \<or> u = 2 \<or> u = 3" by arith
  moreover have "TrimSpace (DownSQL (demo_migrations ! nat 1)) \<noteq> []"
    "TrimSpace (DownSQL (demo_migrations ! nat 2)) \<noteq> []"
    "TrimSpace (DownSQL (demo_migrations ! nat 3)) \<noteq> []"
    by code_simp+
  moreover have
    "list_all (\<lambda>p. TrimSpace p \<noteq> ''FAIL'') (Split (DownSQL (demo_migrations ! nat 1)) CHR '';'')"
    "list_all (\<lambda>p. TrimSpace p \<noteq> ''FAIL'') (Split (DownSQL (demo_migrations ! nat 2)) CHR '';'')"
    "list_all (\<lambda>p. TrimSpace p \<noteq> ''FAIL'') (Split (DownSQL (demo_migrations ! nat 3)) CHR '';'')"
    by code_simp+
  ultimately show ?thesis
    by (auto simp: demo_env_succeeds demo_env_preserves)
qed

lemma irreversible_loaded: "loadMigrations (Some irreversible_dir) = Inr irreversible_migrations"
  by (simp add: loader_eval irreversible_dir_def irreversible_migrations_def upto.simps
      eval_nat_numeral)

lemma irreversible_max: "maxVersion irreversible_migrations = 2"
  by (simp add: maxVersion_def irreversible_migrations_def)

lemma irreversible_blank:
  "TrimSpace (DownSQL (irreversible_migrations ! nat 1)) = []"
  "TrimSpace (DownSQL (irreversible_migrations ! nat 2)) = []"
  by code_simp+

text \<open>
  A run of \<^verbatim>\<open>Up\<close> whose context is cancelled at time 10, when version 1 has just
  been committed: the check before version 2 stops the run. Cancelled at time 7,
  while the script of version 1 executes, the run fails in that script and nothing
  is committed.
\<close>

lemma Up_cancelled_on_its_way:
  "(case Up (demo_env_cancelled 10) demo_migrations (demo_world [0]) of
      (r, w) \<Rightarrow> (r, invoked (trace w), committed (trace w), stored_version (db w))) =
   (Inl (CtxCancelledApplying 2), [(1, True)], [(1, True)], 1)"
  "(case Up (demo_env_cancelled 7) demo_migrations (demo_world [0]) of
      (r, w) \<Rightarrow> (r, invoked (trace w), committed (trace w), stored_version (db w))) =
   (Inl (ApplyFailed 1 (ScriptExecutionError 1 2 ''CREATE TABLE users'')), [(1, True)], [], 0)"
  by code_simp+

text \<open>
  On a database without the table \<^verbatim>\<open>migrations\<close> the version reads 0, \<^verbatim>\<open>Up\<close> starts
  at version 1 and fails when it records it: the script of version 0, which creates
  the table, is not run.
\<close>

lemma Up_on_a_database_without_the_table:
  "(case Up demo_env demo_migrations fresh_world of
      (r, w) \<Rightarrow> (r, invoked (trace w), committed (trace w), migrations_table (db w))) =
   (Inl (ApplyFailed 1 (RecordError 1)), [(1, True)], [], None)"
  by code_simp

section \<open>The claims of the specification\<close>

text \<open>
  Claim C1: for every loaded migration set and every starting version between 0 and
  \<open>maxVersion\<close>, a successful \<^verbatim>\<open>Up\<close> leaves the recorded version equal to
  \<open>maxVersion\<close>, and a second \<^verbatim>\<open>Up\<close> from that state succeeds, hands no migration to
  \<^verbatim>\<open>applyMigration\<close> and changes nothing.

  The scripts applied are those of the versions above the starting one; they are
  taken to leave the table \<^verbatim>\<open>migrations\<close> alone. The second run may be that of a new
  \<^verbatim>\<open>Migrator\<close>, with an environment of its own: it changes nothing whatever its
  environment, and it succeeds when its context is live and its query goes through.
\<close>

theorem Up_reaches_maxVersion_and_is_idempotent:
  assumes loaded: "loadMigrations dir = Inr migrations"
      and lower: "0 \<le> stored_version (db w)"
      and upper: "stored_version (db w) \<le> maxVersion migrations"
      and scripts: "\<forall>version. stored_version (db w) < version \<and> version \<le> maxVersion migrations
              \<longrightarrow> preserves_table env (UpSQL (migrations ! nat version))"
      and up: "Up env migrations w = (Inr (), w')"
  shows "stored_version (db w') = maxVersion migrations \<and>
         (\<forall>env2. \<exists>r w''. Up env2 migrations w' = (r, w'') \<and> db w'' = db w' \<and> trace w'' = trace w' \<and>
            (healthy env2 \<longrightarrow> r = Inr ()))"
proof -
  from loadMigrations_valid [OF loaded]
  have valid: "\<forall>i<length migrations. Version (migrations ! i) = int i" by simp
  from up obtain cv w1 where
    gv: "GetCurrentVersion env (tick w) = (Inr cv, w1)" and
    loop: "Up_loop env migrations cv (cv + 1) w1 = (Inr (), w')"
    by (auto simp: Up_def split: if_splits prod.splits sum.splits)
  from GetCurrentVersion_result [OF gv]
  have w1: "db w1 = db w" and cv: "cv = stored_version (db w)" by simp_all
  have first: "stored_version (db w') = maxVersion migrations"
  proof (cases "cv + 1 < int (length migrations)")
    case True
    have "\<forall>rows. migrations_table (db w1) = Some rows \<longrightarrow> (\<forall>r \<in> set rows. r < cv + 1)"
      using w1 cv stored_version_rows_below [of "db w"] by fastforce
    moreover have "\<forall>v. cv + 1 \<le> v \<and> v < int (length migrations) \<longrightarrow>
        preserves_table env (UpSQL (migrations ! nat v))"
      using scripts cv by (simp add: maxVersion_def)
    ultimately have "stored_version (db w') = int (length migrations) - 1"
      using Up_loop_reaches_end [OF loop valid] lower cv True by simp
    then show ?thesis by (simp add: maxVersion_def)
  next
    case False
    with loop have "w' = w1"
      by (subst (asm) Up_loop.simps) simp
    with w1 cv False upper show ?thesis by (simp add: maxVersion_def)
  qed
  have second: "\<exists>r w''. Up env2 migrations w' = (r, w'') \<and> db w'' = db w' \<and> trace w'' = trace w' \<and>
      (healthy env2 \<longrightarrow> r = Inr ())" for env2
  proof (cases "cancelled env2 w'")
    case True
    then have "Up env2 migrations w' = (Inl CtxCancelled, tick w')"
      by (simp add: Up_def)
    moreover from True have "\<not> healthy env2" by auto
    ultimately show ?thesis by simp
  next
    case live: False
    obtain r1 w1' where gv2: "GetCurrentVersion env2 (tick w') = (r1, w1')" by force
    from GetCurrentVersion_result [OF gv2]
    have same: "db w1' = db w'" "trace w1' = trace w'" and
      r1: "r1 = Inl CtxCancelled \<or> r1 = Inl QueryError \<or> r1 = Inr (stored_version (db w'))"
      by simp_all
    show ?thesis
    proof (cases r1)
      case (Inl e)
      with live gv2 have "Up env2 migrations w' = (Inl (BeforeApplying e), w1')"
        by (simp add: Up_def)
      moreover have "\<not> healthy env2"
      proof
        assume "healthy env2"
        then have "GetCurrentVersion env2 (tick w') =
            (Inr (stored_version (db (tick w'))), tick (tick (tick w')))"
          by (intro GetCurrentVersion_live) simp_all
        with gv2 Inl show False by simp
      qed
      ultimately show ?thesis using same by simp
    next
      case (Inr v)
      with r1 first have v: "v = maxVersion migrations" by simp
      then have "Up_loop env2 migrations v (v + 1) w1' = (Inr (), w1')"
        by (subst Up_loop.simps) (simp add: maxVersion_def)
      with live gv2 Inr have "Up env2 migrations w' = (Inr (), w1')"
        by (simp add: Up_def)
      with same show ?thesis by simp
    qed
  qed
  from first second show ?thesis by blast
qed

text \<open>
  The concrete directory, from the table that holds the row 0: \<^verbatim>\<open>Up\<close> succeeds, the
  recorded version is 3, and a second \<^verbatim>\<open>Up\<close> succeeds and changes nothing.
\<close>

theorem Up_reaches_maxVersion_and_is_idempotent_witness:
  "stored_version (db (snd (Up demo_env demo_migrations (demo_world [0])))) = 3 \<and>
   (\<exists>w''. Up demo_env demo_migrations (snd (Up demo_env demo_migrations (demo_world [0])))
            = (Inr (), w'') \<and>
      db w'' = db (snd (Up demo_env demo_migrations (demo_world [0]))) \<and>
      trace w'' = trace (snd (Up demo_env demo_migrations (demo_world [0]))))"
proof -
  let ?w = "demo_world [0]"
  let ?w' = "snd (Up demo_env demo_migrations ?w)"
  have lower: "0 \<le> stored_version (db ?w)"
    by (simp add: stored_version_def demo_world_def)
  have upper: "stored_version (db ?w) \<le> maxVersion demo_migrations"
    by (simp add: stored_version_def demo_world_def maxVersion_def demo_migrations_def)
  have scripts: "\<forall>version. stored_version (db ?w) < version \<and> version \<le> maxVersion demo_migrations
      \<longrightarrow> preserves_table demo_env (UpSQL (demo_migrations ! nat version))"
    by (simp add: demo_env_preserves)
  have "fst (Up demo_env demo_migrations ?w) = Inr ()"
    by code_simp
  then have up: "Up demo_env demo_migrations ?w = (Inr (), ?w')"
    by (simp add: prod_eq_iff)
  have max: "maxVersion demo_migrations = 3"
    by (simp add: maxVersion_def demo_migrations_def)
  from Up_reaches_maxVersion_and_is_idempotent [OF demo_loaded lower upper scripts up]
  have "stored_version (db ?w') = maxVersion demo_migrations"
    and "\<exists>r w''. Up demo_env demo_migrations ?w' = (r, w'') \<and> db w'' = db ?w' \<and>
           trace w'' = trace ?w' \<and> (healthy demo_env \<longrightarrow> r = Inr ())"
    by blast+
  with demo_env_healthy max show ?thesis by auto
qed

text \<open>
  Claim C2: for every migration and direction, if executing a statement of the
  selected script fails, \<^verbatim>\<open>applyMigration\<close> returns an error naming the version, the
  direction and the index of the failing statement, the transaction is rolled back,
  and the current version afterwards is what it was before.

  The error does not name the direction: its message is built from the version, the
  number of the statement and the statement. The migration \<^const>\<open>two_way_migration\<close>
  fails at the second statement of either script, and the error returned for the up
  direction is the error returned for the down direction.
\<close>

theorem script_error_is_the_same_both_ways:
  "fst (applyMigration demo_env two_way_migration True 2 (demo_world [2, 1, 0])) =
     Inl (ScriptExecutionError 3 2 ''FAIL'') \<and>
   fst (applyMigration demo_env two_way_migration False 3 (demo_world [3, 2, 1, 0])) =
     Inl (ScriptExecutionError 3 2 ''FAIL'')"
  by code_simp

text \<open>
  Claim C2, amended: for every migration and direction, if executing a statement of
  the selected script fails, \<^verbatim>\<open>applyMigration\<close> returns an error naming the version,
  the number of the failing statement (counting from 1 the pieces the script splits
  into at its semicolons) and the statement itself; the transaction is rolled back,
  and the current version afterwards is what it was before.

  The first part is the roll-back: whenever \<^verbatim>\<open>applyMigration\<close> fails, for any
  reason, the committed database is the one before the call and nothing is recorded
  as committed. The second part is the failing statement. The context is live, the
  script is not blank and \<^verbatim>\<open>Begin\<close> succeeds; piece \<open>k\<close> of the script, counted
  from 0, is not blank; the statements before it succeed, one after the other, and
  leave the database \<open>dk\<close>; and the statement of piece \<open>k\<close> fails, because the driver
  fails at that moment or because the statement cannot be executed on \<open>dk\<close>. Then
  \<^verbatim>\<open>applyMigration\<close> returns the error that names the version, the number \<open>k + 1\<close>
  and the statement of piece \<open>k\<close>; the committed database and the recorded version
  are those before the call, nothing is recorded as committed, and the statements
  sent to the database are those of the pieces up to \<open>k\<close>, and no other.
\<close>

theorem script_failure_rolls_back:
  "(applyMigration env m up cv w = (Inl e, w') \<longrightarrow>
      db w' = db w \<and> stored_version (db w') = stored_version (db w) \<and>
      committed (trace w') = committed (trace w)) \<and>
   (\<not> cancelled env w \<and>
    TrimSpace (if up then UpSQL m else DownSQL m) \<noteq> [] \<and>
    \<not> fault env (clock w + 1) \<and>
    k < length (Split (if up then UpSQL m else DownSQL m) CHR '';'') \<and>
    TrimSpace (Split (if up then UpSQL m else DownSQL m) CHR '';'' ! k) \<noteq> [] \<and>
    statements_state env
      (sent_statements (take k (Split (if up then UpSQL m else DownSQL m) CHR '';''))) (db w) =
      Some dk \<and>
    (\<forall>j < length (sent_statements (take k (Split (if up then UpSQL m else DownSQL m) CHR '';''))).
       \<not> fault env (clock w + 2 + j)) \<and>
    (fault env (clock w + 2 +
        length (sent_statements (take k (Split (if up then UpSQL m else DownSQL m) CHR '';'')))) \<or>
     sql_exec env (TrimSpace (Split (if up then UpSQL m else DownSQL m) CHR '';'' ! k)) dk = None) \<longrightarrow>
      (\<exists>w1. applyMigration env m up cv w =
           (Inl (ScriptExecutionError (Version m) (k + 1)
              (TrimSpace (Split (if up then UpSQL m else DownSQL m) CHR '';'' ! k))), w1) \<and>
         db w1 = db w \<and> stored_version (db w1) = stored_version (db w) \<and>
         committed (trace w1) = committed (trace w) \<and>
         executed (trace w1) = executed (trace w) @
           sent_statements (take (Suc k) (Split (if up then UpSQL m else DownSQL m) CHR '';''))))"
proof -
  let ?sql = "if up then UpSQL m else DownSQL m"
  let ?ps = "Split ?sql CHR '';''"
  let ?start = "tick (tick (observe (Invoke (Version m) up) w))"
  let ?e = "ScriptExecutionError (Version m) (k + 1) (TrimSpace (?ps ! k))"
  have first: "applyMigration env m up cv w = (Inl e, w') \<longrightarrow>
      db w' = db w \<and> stored_version (db w') = stored_version (db w) \<and>
      committed (trace w') = committed (trace w)"
  proof
    assume "applyMigration env m up cv w = (Inl e, w')"
    from applyMigration_failure [OF this]
    show "db w' = db w \<and> stored_version (db w') = stored_version (db w) \<and>
        committed (trace w') = committed (trace w)"
      by simp
  qed
  have second: "\<not> cancelled env w \<and> TrimSpace ?sql \<noteq> [] \<and> \<not> fault env (clock w + 1) \<and>
      k < length ?ps \<and> TrimSpace (?ps ! k) \<noteq> [] \<and>
      statements_state env (sent_statements (take k ?ps)) (db w) = Some dk \<and>
      (\<forall>j < length (sent_statements (take k ?ps)). \<not> fault env (clock w + 2 + j)) \<and>
      (fault env (clock w + 2 + length (sent_statements (take k ?ps))) \<or>
       sql_exec env (TrimSpace (?ps ! k)) dk = None) \<longrightarrow>
      (\<exists>w1. applyMigration env m up cv w = (Inl ?e, w1) \<and>
         db w1 = db w \<and> stored_version (db w1) = stored_version (db w) \<and>
         committed (trace w1) = committed (trace w) \<and>
         executed (trace w1) = executed (trace w) @ sent_statements (take (Suc k) ?ps))"
  proof
    assume a: "\<not> cancelled env w \<and> TrimSpace ?sql \<noteq> [] \<and> \<not> fault env (clock w + 1) \<and>
      k < length ?ps \<and> TrimSpace (?ps ! k) \<noteq> [] \<and>
      statements_state env (sent_statements (take k ?ps)) (db w) = Some dk \<and>
      (\<forall>j < length (sent_statements (take k ?ps)). \<not> fault env (clock w + 2 + j)) \<and>
      (fault env (clock w + 2 + length (sent_statements (take k ?ps))) \<or>
       sql_exec env (TrimSpace (?ps ! k)) dk = None)"
    then have k: "k < length ?ps" and nonblank: "TrimSpace (?ps ! k) \<noteq> []" and
      before: "statements_state env (sent_statements (take k ?ps)) (db w) = Some dk"
      by simp_all
    have time: "clock ?start = clock w + 2"
      by simp
    from a have sound: "\<forall>j < length (sent_statements (take k ?ps)). \<not> fault env (clock ?start + j)"
      unfolding time by simp
    from a have fails: "fault env (clock ?start + length (sent_statements (take k ?ps))) \<or>
        sql_exec env (TrimSpace (?ps ! k)) dk = None"
      unfolding time by simp
    from exec_statements_fails_at [OF k nonblank before sound fails, of "Version m" 0]
    obtain w1 where
      loop: "exec_statements env (Version m) 0 ?ps (db w) ?start = (Inl ?e, w1)" and
      sent: "executed (trace w1) = executed (trace ?start) @ sent_statements (take (Suc k) ?ps)"
      by auto
    from a loop have run: "applyMigration env m up cv w = (Inl ?e, w1)"
      by (simp add: applyMigration_def Let_def)
    from applyMigration_failure [OF run]
    have same: "db w1 = db w \<and> stored_version (db w1) = stored_version (db w) \<and>
        committed (trace w1) = committed (trace w)"
      by simp
    from sent have "executed (trace w1) = executed (trace w) @ sent_statements (take (Suc k) ?ps)"
      by simp
    with run same show "\<exists>w1. applyMigration env m up cv w = (Inl ?e, w1) \<and>
         db w1 = db w \<and> stored_version (db w1) = stored_version (db w) \<and>
         committed (trace w1) = committed (trace w) \<and>
         executed (trace w1) = executed (trace w) @ sent_statements (take (Suc k) ?ps)"
      by blast
  qed
  from first second show ?thesis by blast
qed

text \<open>
  The up-script of \<^const>\<open>two_way_migration\<close> at recorded version 2: its first statement
  is executed, its second fails, and the database is the one before the call.
\<close>

theorem script_failure_rolls_back_witness:
  "applyMigration demo_env two_way_migration True 2 (demo_world [2, 1, 0]) =
     (Inl (ScriptExecutionError 3 2 ''FAIL''),
      snd (applyMigration demo_env two_way_migration True 2 (demo_world [2, 1, 0]))) \<and>
   db (snd (applyMigration demo_env two_way_migration True 2 (demo_world [2, 1, 0]))) =
     db (demo_world [2, 1, 0]) \<and>
   stored_version (db (snd (applyMigration demo_env two_way_migration True 2
     (demo_world [2, 1, 0])))) = 2 \<and>
   committed (trace (snd (applyMigration demo_env two_way_migration True 2
     (demo_world [2, 1, 0])))) = [] \<and>
   executed (trace (snd (applyMigration demo_env two_way_migration True 2
     (demo_world [2, 1, 0])))) = [''CREATE TABLE t'', ''FAIL'']"
proof -
  let ?w = "demo_world [2, 1, 0]"
  let ?m = "two_way_migration"
  let ?ps = "Split (if True then UpSQL ?m else DownSQL ?m) CHR '';''"
  let ?dk = "\<lparr>migrations_table = Some [2, 1, 0], user_data = [''CREATE TABLE t'']\<rparr>"
  have live: "\<not> cancelled demo_env ?w"
    using demo_env_healthy by simp
  have nonblank: "TrimSpace (if True then UpSQL ?m else DownSQL ?m) \<noteq> []"
    by code_simp
  have begun: "\<not> fault demo_env (clock ?w + 1)"
    using demo_env_healthy by simp
  have k: "1 < length ?ps"
    by code_simp
  have stmt: "TrimSpace (?ps ! 1) = ''FAIL''"
    by code_simp
  have before: "statements_state demo_env (sent_statements (take 1 ?ps)) (db ?w) = Some ?dk"
    by code_simp
  have sound: "\<forall>j < length (sent_statements (take 1 ?ps)). \<not> fault demo_env (clock ?w + 2 + j)"
    using demo_env_healthy by simp
  have fails: "sql_exec demo_env (TrimSpace (?ps ! 1)) ?dk = None"
    by code_simp
  have sent: "sent_statements (take (Suc 1) ?ps) = [''CREATE TABLE t'', ''FAIL'']"
    by code_simp
  have v: "Version ?m = 3" "stored_version (db ?w) = 2" "committed (trace ?w) = []"
    "executed (trace ?w) = []"
    by (simp_all add: stored_version_def demo_world_def two_way_migration_def)
  from script_failure_rolls_back [of demo_env ?m True 2 ?w _ _ 1 ?dk]
    live nonblank begun k before sound fails
  have "\<exists>w1. applyMigration demo_env ?m True 2 ?w =
           (Inl (ScriptExecutionError (Version ?m) (1 + 1) (TrimSpace (?ps ! 1))), w1) \<and>
         db w1 = db ?w \<and> stored_version (db w1) = stored_version (db ?w) \<and>
         committed (trace w1) = committed (trace ?w) \<and>
         executed (trace w1) = executed (trace ?w) @ sent_statements (take (Suc 1) ?ps)"
    unfolding stmt by blast
  then obtain w1 where
    run: "applyMigration demo_env ?m True 2 ?w = (Inl (ScriptExecutionError 3 2 ''FAIL''), w1)" and
    same: "db w1 = db ?w" "stored_version (db w1) = 2" "committed (trace w1) = []"
      "executed (trace w1) = [''CREATE TABLE t'', ''FAIL'']"
    unfolding stmt sent v by auto
  from run have "snd (applyMigration demo_env ?m True 2 ?w) = w1" by simp
  with run same show ?thesis by simp
qed

text \<open>
  Claim C3: for every \<open>n > 0\<close> and every consistent starting version \<open>v\<close> with
  \<open>v + n \<le> maxVersion\<close>, where every version in \<open>(v, v + n]\<close> has a non-empty
  down-script, \<^verbatim>\<open>Steps(n)\<close> followed by \<^verbatim>\<open>Steps(-n)\<close> succeeds and returns the
  recorded version to \<open>v\<close>.

  The code does not: with versions 0 to 3 loaded, each of 1 to 3 with a down-script,
  and the table holding the row 0, \<^verbatim>\<open>Steps(2)\<close> and \<^verbatim>\<open>Steps(-2)\<close> both succeed and
  the recorded version ends at 1. The forward loop applies versions 1 and 3 (see
  claim C7), so the two rollbacks revert versions 3 and 2 and leave the row 1.
\<close>

theorem Steps_round_trip_ends_elsewhere:
  "(case Steps demo_env demo_migrations 2 (demo_world [0]) of
      (r1, w1) \<Rightarrow>
        (case Steps demo_env demo_migrations (- 2) w1 of
           (r2, w2) \<Rightarrow>
             (r1, r2, stored_version (db (demo_world [0])), stored_version (db w1),
              stored_version (db w2), committed (trace w2)))) =
   (Inr (), Inr (), 0, 3, 1, [(1, True), (3, True), (3, False), (2, False)])"
  by code_simp

text \<open>
  Claim C4: whenever the current version is 0, \<^verbatim>\<open>Down\<close> fails with the error "no
  migrations to rollback" and changes no state; and for every \<open>k > 0\<close>, \<^verbatim>\<open>Steps(-k)\<close>
  fails with that error as soon as the version reaches 0 before \<open>k\<close> rollbacks are
  done, leaving the rollbacks it has committed in place.

  Three statements. At recorded version 0 \<^verbatim>\<open>Down\<close> never succeeds and leaves the
  database and the trace as they were; its error is the one named unless the
  context is cancelled or the query fails. The rollback loop that reaches version 0
  with rollbacks still to do returns the error and leaves the world as it is, all
  commits included. And a whole run of \<^verbatim>\<open>Steps(-k)\<close> from a recorded version
  \<open>v < k\<close>, in a healthy environment whose down-scripts for versions 1 to \<open>v\<close> are not
  blank, succeed and leave the table \<^verbatim>\<open>migrations\<close> alone, commits the rollbacks of
  \<open>v\<close>, \<open>v - 1\<close>, ..., 1 in this order, removes their rows and then returns the
  error. The count \<open>k\<close> is a Go \<^verbatim>\<open>int\<close>: it is below \<open>2 ^ 63\<close>.
\<close>

theorem rollback_without_history_fails:
  "(stored_version (db w) = 0 \<longrightarrow>
      (\<exists>r w'. Down env migrations w = (r, w') \<and> db w' = db w \<and> trace w' = trace w \<and>
         (r = Inl CtxCancelled \<or> r = Inl (BeforeRollingBack CtxCancelled) \<or>
          r = Inl (BeforeRollingBack QueryError) \<or> r = Inl NoMigrations) \<and>
         (healthy env \<longrightarrow> r = Inl NoMigrations))) \<and>
   (i < k \<longrightarrow> Steps_rollback env migrations k i 0 w = (Inl NoMigrations, w)) \<and>
   (loadMigrations dir = Inr migrations \<and> healthy env \<and>
    0 \<le> stored_version (db w) \<and> stored_version (db w) \<le> maxVersion migrations \<and>
    stored_version (db w) < k \<and> k < 2 ^ 63 \<and>
    (\<forall>u. 1 \<le> u \<and> u \<le> stored_version (db w) \<longrightarrow>
       TrimSpace (DownSQL (migrations ! nat u)) \<noteq> [] \<and>
       succeeds env (DownSQL (migrations ! nat u)) \<and>
       preserves_table env (DownSQL (migrations ! nat u))) \<longrightarrow>
      (\<exists>w'. Steps env migrations (- k) w = (Inl NoMigrations, w') \<and>
         committed (trace w') =
           committed (trace w) @ map (\<lambda>u. (u, False)) (rev [1..stored_version (db w)]) \<and>
         migrations_table (db w') =
           map_option (filter (\<lambda>r. r < 1 \<or> stored_version (db w) < r))
             (migrations_table (db w))))"
proof (intro conjI impI)
  assume zero: "stored_version (db w) = 0"
  obtain r w' where down: "Down env migrations w = (r, w')" by force
  from Down_before_lookup [OF down]
  show "\<exists>r w'. Down env migrations w = (r, w') \<and> db w' = db w \<and> trace w' = trace w \<and>
      (r = Inl CtxCancelled \<or> r = Inl (BeforeRollingBack CtxCancelled) \<or>
       r = Inl (BeforeRollingBack QueryError) \<or> r = Inl NoMigrations) \<and>
      (healthy env \<longrightarrow> r = Inl NoMigrations)"
  proof (elim disjE conjE exE)
    fix w1
    assume "db w1 = db w" "trace w1 = trace w"
      "GetCurrentVersion env (tick w) = (Inr (stored_version (db w)), w1)" "\<not> cancelled env w"
    with zero down have "r = Inl NoMigrations" "w' = w1"
      by (simp_all add: Down_def)
    with down \<open>db w1 = db w\<close> \<open>trace w1 = trace w\<close> show ?thesis by simp
  qed (use down in auto)
next
  assume "i < k"
  then show "Steps_rollback env migrations k i 0 w = (Inl NoMigrations, w)"
    by (subst Steps_rollback.simps) simp
next
  assume a: "loadMigrations dir = Inr migrations \<and> healthy env \<and>
    0 \<le> stored_version (db w) \<and> stored_version (db w) \<le> maxVersion migrations \<and>
    stored_version (db w) < k \<and> k < 2 ^ 63 \<and>
    (\<forall>u. 1 \<le> u \<and> u \<le> stored_version (db w) \<longrightarrow>
       TrimSpace (DownSQL (migrations ! nat u)) \<noteq> [] \<and>
       succeeds env (DownSQL (migrations ! nat u)) \<and>
       preserves_table env (DownSQL (migrations ! nat u)))"
  let ?v = "stored_version (db w)"
  let ?w1 = "tick (tick (tick w))"
  from a have loaded: "loadMigrations dir = Inr migrations" and h: "healthy env"
    and v: "0 \<le> ?v" "?v \<le> maxVersion migrations" "?v < k" and k: "k < 2 ^ 63"
    and scripts: "\<forall>u. 1 \<le> u \<and> u \<le> ?v \<longrightarrow>
       TrimSpace (DownSQL (migrations ! nat u)) \<noteq> [] \<and>
       succeeds env (DownSQL (migrations ! nat u)) \<and>
       preserves_table env (DownSQL (migrations ! nat u))"
    by simp_all
  from loadMigrations_valid [OF loaded]
  have valid: "\<forall>i<length migrations. Version (migrations ! i) = int i" by simp
  from h have gv: "GetCurrentVersion env (tick w) = (Inr ?v, ?w1)"
    using GetCurrentVersion_live [of env "tick w"] by simp
  from v k have neg: "- k < 0" "neg_int64 (- k) = k"
    by (simp_all add: neg_int64_def)
  from h gv neg have run: "Steps env migrations (- k) w = Steps_rollback env migrations k 0 ?v ?w1"
    by (simp add: Steps_def)
  have table: "0 < ?v \<longrightarrow> migrations_table (db ?w1) \<noteq> None"
    by (cases "migrations_table (db w)") (simp_all add: stored_version_def)
  from v have "?v < int (length migrations)" "?v < k - 0"
    by (simp_all add: maxVersion_def)
  from Steps_rollback_runs_out [OF valid h v(1) this scripts table] run
  show "\<exists>w'. Steps env migrations (- k) w = (Inl NoMigrations, w') \<and>
         committed (trace w') =
           committed (trace w) @ map (\<lambda>u. (u, False)) (rev [1..?v]) \<and>
         migrations_table (db w') =
           map_option (filter (\<lambda>r. r < 1 \<or> ?v < r)) (migrations_table (db w))"
    by simp
qed

text \<open>
  The concrete set: \<^verbatim>\<open>Down\<close> at recorded version 0, the loop at version 0, and
  \<^verbatim>\<open>Steps(-3)\<close> from recorded version 2, which rolls back versions 2 and 1, leaves
  the row 0 and fails.
\<close>

theorem rollback_without_history_fails_witness:
  "(\<exists>w'. Down demo_env demo_migrations (demo_world [0]) = (Inl NoMigrations, w') \<and>
      db w' = db (demo_world [0]) \<and> trace w' = trace (demo_world [0])) \<and>
   Steps_rollback demo_env demo_migrations 3 2 0 (demo_world [0]) =
     (Inl NoMigrations, demo_world [0]) \<and>
   (\<exists>w'. Steps demo_env demo_migrations (- 3) (demo_world [2, 1, 0]) = (Inl NoMigrations, w') \<and>
      committed (trace w') = [(2, False), (1, False)] \<and>
      migrations_table (db w') = Some [0])"
proof -
  have v0: "stored_version (db (demo_world [0])) = 0"
    by (simp add: stored_version_def demo_world_def)
  have v2: "stored_version (db (demo_world [2, 1, 0])) = 2"
    by (simp add: stored_version_def demo_world_def)
  have scripts: "\<forall>u. 1 \<le> u \<and> u \<le> stored_version (db (demo_world [2, 1, 0])) \<longrightarrow>
      TrimSpace (DownSQL (demo_migrations ! nat u)) \<noteq> [] \<and>
      succeeds demo_env (DownSQL (demo_migrations ! nat u)) \<and>
      preserves_table demo_env (DownSQL (demo_migrations ! nat u))"
    using demo_down_scripts v2 by simp
  have upto: "rev [1..(2::int)] = [2, 1]"
    by (simp add: upto.simps)
  have table: "migrations_table (db (demo_world [2, 1, 0])) = Some [2, 1, 0]"
    "trace (demo_world [2, 1, 0]) = []"
    by (simp_all add: demo_world_def)
  from rollback_without_history_fails
    [of "demo_world [0]" demo_env demo_migrations 2 3 "Some demo_dir"] v0 demo_env_healthy
  have one: "(\<exists>w'. Down demo_env demo_migrations (demo_world [0]) = (Inl NoMigrations, w') \<and>
      db w' = db (demo_world [0]) \<and> trace w' = trace (demo_world [0])) \<and>
   Steps_rollback demo_env demo_migrations 3 2 0 (demo_world [0]) =
     (Inl NoMigrations, demo_world [0])"
    by auto
  from rollback_without_history_fails
    [of "demo_world [2, 1, 0]" demo_env demo_migrations 2 3 "Some demo_dir"]
    demo_loaded demo_env_healthy demo_max scripts v2
  have "\<exists>w'. Steps demo_env demo_migrations (- 3) (demo_world [2, 1, 0]) = (Inl NoMigrations, w') \<and>
      committed (trace w') = committed (trace (demo_world [2, 1, 0])) @
        map (\<lambda>u. (u, False)) (rev [1..2]) \<and>
      migrations_table (db w') =
        map_option (filter (\<lambda>r. r < 1 \<or> 2 < r)) (migrations_table (db (demo_world [2, 1, 0])))"
    by simp
  with upto table one show ?thesis by simp
qed

text \<open>
  Claim C5: for every migration whose down-script is empty or only white space, a
  request to roll it back (\<^verbatim>\<open>Down\<close>, or \<^verbatim>\<open>Steps\<close> with a negative count that
  reaches that version) fails with the "not revertible" or "empty script" error
  before any SQL is executed, and the current version is unchanged.

  Let \<open>v\<close> be a loaded version above 0 whose down-script is blank. \<^verbatim>\<open>Down\<close> at
  recorded version \<open>v\<close>, \<^verbatim>\<open>Steps(-k)\<close> at recorded version \<open>v\<close> and the rollback loop
  of \<^verbatim>\<open>Steps\<close> that reaches \<open>v\<close> with rollbacks still to do all return an error and
  leave the database and the whole trace as they were: no statement is sent and the
  migration is not even handed to \<^verbatim>\<open>applyMigration\<close>. The error is the one for a
  missing \<^verbatim>\<open>down.sql\<close> unless the context is cancelled or the query of the version
  fails. \<^verbatim>\<open>applyMigration\<close> itself, called for the down direction, returns its
  "empty down.sql content" error (or the cancellation error) with the database and
  the statements executed unchanged.
\<close>

theorem blank_down_script_is_not_run:
  assumes loaded: "loadMigrations dir = Inr migrations"
      and range: "0 < v" "v \<le> maxVersion migrations"
      and blank: "TrimSpace (DownSQL (migrations ! nat v)) = []"
  shows "(stored_version (db w) = v \<longrightarrow>
            (\<exists>r w'. Down env migrations w = (r, w') \<and> db w' = db w \<and> trace w' = trace w \<and>
               (r = Inl CtxCancelled \<or> r = Inl (BeforeRollingBack CtxCancelled) \<or>
                r = Inl (BeforeRollingBack QueryError) \<or> r = Inl (NotRevertible v)) \<and>
               (healthy env \<longrightarrow> r = Inl (NotRevertible v)))) \<and>
         (stored_version (db w) = v \<and> 0 < k \<and> k < 2 ^ 63 \<longrightarrow>
            (\<exists>r w'. Steps env migrations (- k) w = (r, w') \<and> db w' = db w \<and> trace w' = trace w \<and>
               (r = Inl CtxCancelled \<or> r = Inl (BeforeSteps CtxCancelled) \<or>
                r = Inl (BeforeSteps QueryError) \<or> r = Inl (CtxCancelledRollingBack v) \<or>
                r = Inl (NotRevertible v)) \<and>
               (healthy env \<longrightarrow> r = Inl (NotRevertible v)))) \<and>
         (i < k \<longrightarrow>
            (\<exists>r w'. Steps_rollback env migrations k i v w = (r, w') \<and>
               db w' = db w \<and> trace w' = trace w \<and>
               (r = Inl (CtxCancelledRollingBack v) \<or> r = Inl (NotRevertible v)) \<and>
               (\<not> cancelled env w \<longrightarrow> r = Inl (NotRevertible v)))) \<and>
         (\<exists>r w'. applyMigration env (migrations ! nat v) False cv w = (r, w') \<and>
            db w' = db w \<and> executed (trace w') = executed (trace w) \<and>
            (r = Inl CtxCancelled \<or> r = Inl (EmptyScript v False)) \<and>
            (healthy env \<longrightarrow> r = Inl (EmptyScript v False)))"
proof -
  from loadMigrations_valid [OF loaded]
  have valid: "\<forall>i<length migrations. Version (migrations ! i) = int i" by simp
  from range have v: "0 \<le> v" "v < int (length migrations)" "v \<noteq> 0"
    by (simp_all add: maxVersion_def)
  from find_migration_nth [OF valid v(1,2)]
  have found: "find_migration migrations v = Some (migrations ! nat v)" .
  from Version_nth [OF valid v(1,2)] have ver: "Version (migrations ! nat v) = v" .
  have loop: "\<exists>r w'. Steps_rollback env migrations k i v w = (r, w') \<and>
      db w' = db w \<and> trace w' = trace w \<and>
      (r = Inl (CtxCancelledRollingBack v) \<or> r = Inl (NotRevertible v)) \<and>
      (\<not> cancelled env w \<longrightarrow> r = Inl (NotRevertible v))" if "i < k" for i k and w :: "'a world"
    using that v(3) found blank
    by (subst Steps_rollback.simps) simp
  have down: "\<exists>r w'. Down env migrations w = (r, w') \<and> db w' = db w \<and> trace w' = trace w \<and>
      (r = Inl CtxCancelled \<or> r = Inl (BeforeRollingBack CtxCancelled) \<or>
       r = Inl (BeforeRollingBack QueryError) \<or> r = Inl (NotRevertible v)) \<and>
      (healthy env \<longrightarrow> r = Inl (NotRevertible v))" if stored: "stored_version (db w) = v"
  proof -
    obtain r w' where run: "Down env migrations w = (r, w')" by force
    from Down_before_lookup [OF run] show ?thesis
    proof (elim disjE conjE exE)
      fix w1
      assume w1: "db w1 = db w" "trace w1 = trace w"
        "GetCurrentVersion env (tick w) = (Inr (stored_version (db w)), w1)" "\<not> cancelled env w"
      with stored v(3) found blank run have "r = Inl (NotRevertible v)" "w' = w1"
        by (simp_all add: Down_def)
      with run w1(1,2) show ?thesis by simp
    qed (use run in auto)
  qed
  have steps: "\<exists>r w'. Steps env migrations (- k) w = (r, w') \<and> db w' = db w \<and> trace w' = trace w \<and>
      (r = Inl CtxCancelled \<or> r = Inl (BeforeSteps CtxCancelled) \<or>
       r = Inl (BeforeSteps QueryError) \<or> r = Inl (CtxCancelledRollingBack v) \<or>
       r = Inl (NotRevertible v)) \<and>
      (healthy env \<longrightarrow> r = Inl (NotRevertible v))"
    if stored: "stored_version (db w) = v" and k: "0 < k" "k < 2 ^ 63"
  proof (cases "cancelled env w")
    case True
    then have "Steps env migrations (- k) w = (Inl CtxCancelled, tick w)"
      by (simp add: Steps_def)
    moreover from True have "\<not> healthy env" by auto
    ultimately show ?thesis by simp
  next
    case live: False
    obtain r1 w1 where gv: "GetCurrentVersion env (tick w) = (r1, w1)" by force
    from GetCurrentVersion_result [OF gv] stored
    have same: "db w1 = db w" "trace w1 = trace w" and
      r1: "r1 = Inl CtxCancelled \<or> r1 = Inl QueryError \<or> r1 = Inr v"
      by simp_all
    show ?thesis
    proof (cases r1)
      case (Inl e)
      with live gv have "Steps env migrations (- k) w = (Inl (BeforeSteps e), w1)"
        by (simp add: Steps_def)
      moreover have "\<not> healthy env"
      proof
        assume "healthy env"
        then have "GetCurrentVersion env (tick w) =
            (Inr (stored_version (db (tick w))), tick (tick (tick w)))"
          by (intro GetCurrentVersion_live) simp_all
        with gv Inl show False by simp
      qed
      ultimately show ?thesis using same r1 Inl by auto
    next
      case (Inr u)
      with r1 have u: "u = v" by simp
      from k have neg: "neg_int64 (- k) = k" by (simp add: neg_int64_def)
      from live gv Inr u k neg
      have run: "Steps env migrations (- k) w = Steps_rollback env migrations k 0 v w1"
        by (simp add: Steps_def)
      from loop [of 0 k w1] k obtain r w' where
        "Steps_rollback env migrations k 0 v w1 = (r, w')" "db w' = db w1" "trace w' = trace w1"
        "r = Inl (CtxCancelledRollingBack v) \<or> r = Inl (NotRevertible v)"
        "\<not> cancelled env w1 \<longrightarrow> r = Inl (NotRevertible v)"
        by auto
      with run same show ?thesis by auto
    qed
  qed
  have direct: "\<exists>r w'. applyMigration env (migrations ! nat v) False cv w = (r, w') \<and>
      db w' = db w \<and> executed (trace w') = executed (trace w) \<and>
      (r = Inl CtxCancelled \<or> r = Inl (EmptyScript v False)) \<and>
      (healthy env \<longrightarrow> r = Inl (EmptyScript v False))"
    using blank ver by (auto simp: applyMigration_def Let_def)
  from down steps loop [of i k w] direct show ?thesis by blast
qed

text \<open>
  The set \<^const>\<open>irreversible_migrations\<close>: version 1, whose down-script is white
  space, and version 2, which has none.
\<close>

theorem blank_down_script_is_not_run_witness:
  "(\<exists>w'. Down demo_env irreversible_migrations (demo_world [1, 0]) = (Inl (NotRevertible 1), w') \<and>
      db w' = db (demo_world [1, 0]) \<and> trace w' = trace (demo_world [1, 0])) \<and>
   (\<exists>w'. Steps demo_env irreversible_migrations (- 2) (demo_world [1, 0]) =
        (Inl (NotRevertible 1), w') \<and>
      db w' = db (demo_world [1, 0]) \<and> trace w' = trace (demo_world [1, 0])) \<and>
   (\<exists>w'. Steps_rollback demo_env irreversible_migrations 2 0 1 (demo_world [1, 0]) =
        (Inl (NotRevertible 1), w') \<and>
      db w' = db (demo_world [1, 0]) \<and> trace w' = trace (demo_world [1, 0])) \<and>
   (\<exists>w'. applyMigration demo_env (irreversible_migrations ! nat 1) False 1 (demo_world [1, 0]) =
        (Inl (EmptyScript 1 False), w') \<and>
      db w' = db (demo_world [1, 0]) \<and>
      executed (trace w') = executed (trace (demo_world [1, 0]))) \<and>
   (\<exists>w'. Down demo_env irreversible_migrations (demo_world [2, 1, 0]) =
        (Inl (NotRevertible 2), w') \<and>
      db w' = db (demo_world [2, 1, 0]) \<and> trace w' = trace (demo_world [2, 1, 0]))"
proof -
  have v1: "stored_version (db (demo_world [1, 0])) = 1"
    by (simp add: stored_version_def demo_world_def)
  have v2: "stored_version (db (demo_world [2, 1, 0])) = 2"
    by (simp add: stored_version_def demo_world_def)
  have live: "\<not> cancelled demo_env (demo_world [1, 0])"
    using demo_env_healthy by simp
  have k: "(0::int) < 2" "(2::int) < 2 ^ 63" by simp_all
  from blank_down_script_is_not_run
    [OF irreversible_loaded _ _ irreversible_blank(1), of "demo_world [1, 0]" demo_env 2 0 1]
    irreversible_max v1 live k demo_env_healthy
  have first: "(\<exists>w'. Down demo_env irreversible_migrations (demo_world [1, 0]) =
        (Inl (NotRevertible 1), w') \<and>
      db w' = db (demo_world [1, 0]) \<and> trace w' = trace (demo_world [1, 0])) \<and>
   (\<exists>w'. Steps demo_env irreversible_migrations (- 2) (demo_world [1, 0]) =
        (Inl (NotRevertible 1), w') \<and>
      db w' = db (demo_world [1, 0]) \<and> trace w' = trace (demo_world [1, 0])) \<and>
   (\<exists>w'. Steps_rollback demo_env irreversible_migrations 2 0 1 (demo_world [1, 0]) =
        (Inl (NotRevertible 1), w') \<and>
      db w' = db (demo_world [1, 0]) \<and> trace w' = trace (demo_world [1, 0])) \<and>
   (\<exists>w'. applyMigration demo_env (irreversible_migrations ! nat 1) False 1 (demo_world [1, 0]) =
        (Inl (EmptyScript 1 False), w') \<and>
      db w' = db (demo_world [1, 0]) \<and>
      executed (trace w') = executed (trace (demo_world [1, 0])))"
    by simp
  from blank_down_script_is_not_run
    [OF irreversible_loaded _ _ irreversible_blank(2), of "demo_world [2, 1, 0]" demo_env 2 0 1]
    irreversible_max v2 demo_env_healthy
  have "\<exists>w'. Down demo_env irreversible_migrations (demo_world [2, 1, 0]) =
        (Inl (NotRevertible 2), w') \<and>
      db w' = db (demo_world [2, 1, 0]) \<and> trace w' = trace (demo_world [2, 1, 0])"
    by simp
  with first show ?thesis by simp
qed

text \<open>
  Claim C6: for every directory, the loader fails with a load error when the
  directory cannot be read, when it holds no valid migration file, or when a version
  between 0 and the greatest one lacks an up-script; it never skips a gap.

  The code does not do so on every directory. In \<^const>\<open>gap_dir\<close> versions 1 to 8 lack
  an up-script; the slice has \<open>2 div 2 + 5 = 6\<close> elements, and the file of version 9
  indexes it out of range before the loop that looks for gaps is reached: the
  loader panics instead of returning the error for the missing version 1.

  The rest of the claim holds on every directory. A set the loader returns has no
  gap: every version up to the greatest version of a migration file has a non-empty
  up-script, read from a file of that version (\<open>loadMigrations_sources\<close>). A
  directory that cannot be read gives the error of \<^verbatim>\<open>os.ReadDir\<close>, by the definition,
  and one without migration files gives the error "no valid migration files"
  (\<open>loadMigrations_no_files\<close>).
\<close>

theorem loadMigrations_gap_panics:
  "loadMigrations (Some gap_dir) = Inl (IndexOutOfRange 9 6)"
  by (simp add: loader_eval gap_dir_def)

text \<open>
  Claim C7: for every \<open>n > 0\<close> and every starting version \<open>v\<close>, a successful
  \<^verbatim>\<open>Steps(n)\<close> applies exactly \<open>min(n, maxVersion - v)\<close> forward migrations, in
  strictly increasing order of version with no version skipped.

  The code skips versions: the loop computes the version to apply as
  \<^verbatim>\<open>currentVersion + 1 + i\<close> and its body assigns \<^verbatim>\<open>currentVersion\<close>, so the second
  iteration applies the version three above the start. With versions 0 to 3 loaded
  and the recorded version 0, \<^verbatim>\<open>Steps(2)\<close> succeeds having committed versions 1 and
  3, never version 2, and the recorded version is 3.
\<close>

theorem Steps_forward_skips_a_version:
  "(case Steps demo_env demo_migrations 2 (demo_world [0]) of
      (r, w) \<Rightarrow> (r, invoked (trace w), committed (trace w), stored_version (db w))) =
   (Inr (), [(1, True), (3, True)], [(1, True), (3, True)], 3)"
  by code_simp

text \<open>
  Claim C8: when the context is already cancelled, each public operation
  (\<^verbatim>\<open>NewMigrator\<close>, \<^verbatim>\<open>Up\<close>, \<^verbatim>\<open>Down\<close>, \<^verbatim>\<open>Steps\<close>, \<^verbatim>\<open>GetCurrentVersion\<close>) returns a
  cancellation error without executing any script; and in a run of several steps the
  cancellation is checked again before each migration, so that a run cancelled on its
  way stops between two migrations and starts no further script.

  The world \<open>w\<close> is any world: the one an operation starts in, or the one a loop has
  reached after some migrations. In each case the result is the cancellation error
  and the world is the same but for its clock: the database and the trace, which
  would show a statement executed or a migration handed over, are unchanged. The
  rollback loop tests for version 0 before it checks the context, so its clause is
  for a version other than 0. \<^verbatim>\<open>applyMigration\<close> checks the context once more
  before it begins its transaction: a migration handed to it once the context is
  cancelled has no statement executed.
\<close>

theorem cancelled_context_stops_every_operation:
  assumes "cancelled env w"
  shows "NewMigrator env dir w = (Inl CtxCancelled, tick w) \<and>
         GetCurrentVersion env w = (Inl CtxCancelled, tick w) \<and>
         Up env migrations w = (Inl CtxCancelled, tick w) \<and>
         Down env migrations w = (Inl CtxCancelled, tick w) \<and>
         Steps env migrations n w = (Inl CtxCancelled, tick w) \<and>
         (0 \<le> version \<and> version < int (length migrations) \<longrightarrow>
            Up_loop env migrations cv version w = (Inl (CtxCancelledApplying version), tick w)) \<and>
         (i < n \<and> 0 \<le> cv + 1 + i \<and> cv + 1 + i < int (length migrations) \<longrightarrow>
            Steps_forward env migrations n i cv w =
              (Inl (CtxCancelledApplying (cv + 1 + i)), tick w)) \<and>
         (i < k \<and> cv \<noteq> 0 \<longrightarrow>
            Steps_rollback env migrations k i cv w = (Inl (CtxCancelledRollingBack cv), tick w)) \<and>
         db (tick w) = db w \<and> trace (tick w) = trace w \<and>
         applyMigration env m up cv w =
           (Inl CtxCancelled, tick (observe (Invoke (Version m) up) w)) \<and>
         executed (trace (tick (observe (Invoke (Version m) up) w))) = executed (trace w)"
proof -
  have "0 \<le> version \<and> version < int (length migrations) \<longrightarrow>
      Up_loop env migrations cv version w = (Inl (CtxCancelledApplying version), tick w)"
    using assms by (subst Up_loop.simps) simp
  moreover have "i < n \<and> 0 \<le> cv + 1 + i \<and> cv + 1 + i < int (length migrations) \<longrightarrow>
      Steps_forward env migrations n i cv w = (Inl (CtxCancelledApplying (cv + 1 + i)), tick w)"
    using assms by (subst Steps_forward.simps) (simp add: Let_def)
  moreover have "i < k \<and> cv \<noteq> 0 \<longrightarrow>
      Steps_rollback env migrations k i cv w = (Inl (CtxCancelledRollingBack cv), tick w)"
    using assms by (subst Steps_rollback.simps) simp
  ultimately show ?thesis
    using assms
    by (simp add: NewMigrator_def GetCurrentVersion_def Up_def Down_def Steps_def
        applyMigration_def)
qed

text \<open>
  A context cancelled at time 12, seen from a world at time 17 whose table holds
  versions 0 to 2.
\<close>

theorem cancelled_context_stops_every_operation_witness:
  "NewMigrator (demo_env_cancelled 12) (Some demo_dir) ((demo_world [2, 1, 0])\<lparr>clock := 17\<rparr>) =
     (Inl CtxCancelled, tick ((demo_world [2, 1, 0])\<lparr>clock := 17\<rparr>)) \<and>
   GetCurrentVersion (demo_env_cancelled 12) ((demo_world [2, 1, 0])\<lparr>clock := 17\<rparr>) =
     (Inl CtxCancelled, tick ((demo_world [2, 1, 0])\<lparr>clock := 17\<rparr>)) \<and>
   Up (demo_env_cancelled 12) demo_migrations ((demo_world [2, 1, 0])\<lparr>clock := 17\<rparr>) =
     (Inl CtxCancelled, tick ((demo_world [2, 1, 0])\<lparr>clock := 17\<rparr>)) \<and>
   Down (demo_env_cancelled 12) demo_migrations ((demo_world [2, 1, 0])\<lparr>clock := 17\<rparr>) =
     (Inl CtxCancelled, tick ((demo_world [2, 1, 0])\<lparr>clock := 17\<rparr>)) \<and>
   Steps (demo_env_cancelled 12) demo_migrations 1 ((demo_world [2, 1, 0])\<lparr>clock := 17\<rparr>) =
     (Inl CtxCancelled, tick ((demo_world [2, 1, 0])\<lparr>clock := 17\<rparr>)) \<and>
   Up_loop (demo_env_cancelled 12) demo_migrations 2 3 ((demo_world [2, 1, 0])\<lparr>clock := 17\<rparr>) =
     (Inl (CtxCancelledApplying 3), tick ((demo_world [2, 1, 0])\<lparr>clock := 17\<rparr>)) \<and>
   Steps_forward (demo_env_cancelled 12) demo_migrations 1 0 2
       ((demo_world [2, 1, 0])\<lparr>clock := 17\<rparr>) =
     (Inl (CtxCancelledApplying 3), tick ((demo_world [2, 1, 0])\<lparr>clock := 17\<rparr>)) \<and>
   Steps_rollback (demo_env_cancelled 12) demo_migrations 1 0 2
       ((demo_world [2, 1, 0])\<lparr>clock := 17\<rparr>) =
     (Inl (CtxCancelledRollingBack 2), tick ((demo_world [2, 1, 0])\<lparr>clock := 17\<rparr>)) \<and>
   applyMigration (demo_env_cancelled 12) two_way_migration True 2
       ((demo_world [2, 1, 0])\<lparr>clock := 17\<rparr>) =
     (Inl CtxCancelled,
      tick (observe (Invoke (Version two_way_migration) True)
        ((demo_world [2, 1, 0])\<lparr>clock := 17\<rparr>)))"
proof -
  let ?w = "(demo_world [2, 1, 0])\<lparr>clock := 17\<rparr>"
  have c: "cancelled (demo_env_cancelled 12) ?w"
    by (simp add: cancelled_def demo_env_cancelled_def)
  have len: "int (length demo_migrations) = 4"
    by (simp add: demo_migrations_def)
  from cancelled_context_stops_every_operation
    [OF c, of "Some demo_dir" demo_migrations 1 3 2 0 1 two_way_migration True] len
  show ?thesis by simp
qed

text \<open>
  Claim C9: for every directory, \<^verbatim>\<open>loadMigrations\<close> returns a migration set or an
  error; the writes to \<^verbatim>\<open>migrations[version]\<close> stay inside the slice of
  \<^verbatim>\<open>fileCount/2+5\<close> elements, so loading never panics.

  The code panics on \<^const>\<open>up_only_dir\<close>: twelve files give a slice of
  \<open>12 div 2 + 5 = 11\<close> elements, and the file of version 11 indexes it at 11.
\<close>

theorem loadMigrations_up_only_panics:
  "loadMigrations (Some up_only_dir) = Inl (IndexOutOfRange 11 11)"
  by (simp add: loader_eval up_only_dir_def)

text \<open>
  Claim C10: on a database whose table \<^verbatim>\<open>migrations\<close> does not exist or is empty,
  \<^verbatim>\<open>GetCurrentVersion\<close> returns 0 and \<^verbatim>\<open>Up\<close> begins applying at version 1; the
  up-script of version 0 is never executed by \<^verbatim>\<open>Up\<close> nor by a forward \<^verbatim>\<open>Steps\<close>,
  since forward application starts at \<^verbatim>\<open>currentVersion + 1\<close>.

  The migrations a run hands to \<^verbatim>\<open>applyMigration\<close> are read off its trace. For
  every world, their versions are all above the recorded version, and the first is
  the recorded version plus one; there is a first one whenever the environment is
  healthy and that version is loaded. When the table is absent or empty the
  recorded version is 0, so the versions applied are at least 1 and start at 1:
  version 0 is not among them.
\<close>

theorem forward_runs_start_above_recorded_version:
  assumes loaded: "loadMigrations dir = Inr migrations"
  shows "(migrations_table (db w) = None \<or> migrations_table (db w) = Some [] \<longrightarrow>
            stored_version (db w) = 0 \<and> (healthy env \<longrightarrow> fst (GetCurrentVersion env w) = Inr 0)) \<and>
         (\<exists>r w' vs. Up env migrations w = (r, w') \<and>
            invoked (trace w') = invoked (trace w) @ map (\<lambda>v. (v, True)) vs \<and>
            (\<forall>v \<in> set vs. stored_version (db w) + 1 \<le> v) \<and>
            (vs \<noteq> [] \<longrightarrow> hd vs = stored_version (db w) + 1) \<and>
            (healthy env \<and> 0 \<le> stored_version (db w) + 1 \<and>
             stored_version (db w) + 1 \<le> maxVersion migrations \<longrightarrow> vs \<noteq> [])) \<and>
         (0 < n \<longrightarrow>
           (\<exists>r w' vs. Steps env migrations n w = (r, w') \<and>
              invoked (trace w') = invoked (trace w) @ map (\<lambda>v. (v, True)) vs \<and>
              (\<forall>v \<in> set vs. stored_version (db w) + 1 \<le> v) \<and>
              (vs \<noteq> [] \<longrightarrow> hd vs = stored_version (db w) + 1) \<and>
              (healthy env \<and> 0 \<le> stored_version (db w) + 1 \<and>
               stored_version (db w) + 1 \<le> maxVersion migrations \<longrightarrow> vs \<noteq> [])))"
proof -
  let ?cv = "stored_version (db w)"
  let ?good = "\<lambda>(w' :: 'a world) vs.
      invoked (trace w') = invoked (trace w) @ map (\<lambda>v. (v, True)) vs \<and>
      (\<forall>v \<in> set vs. ?cv + 1 \<le> v) \<and> (vs \<noteq> [] \<longrightarrow> hd vs = ?cv + 1) \<and>
      (healthy env \<and> 0 \<le> ?cv + 1 \<and> ?cv + 1 \<le> maxVersion migrations \<longrightarrow> vs \<noteq> [])"
  from loadMigrations_valid [OF loaded]
  have valid: "\<forall>i<length migrations. Version (migrations ! i) = int i" by simp
  have nothing: "?good w' []" if "trace w' = trace w" and "\<not> healthy env" for w'
    using that by simp
  have get: "healthy env \<Longrightarrow> GetCurrentVersion env (tick w) = (Inr ?cv, tick (tick (tick w)))"
    using GetCurrentVersion_live [of env "tick w"] by simp
  have first: "migrations_table (db w) = None \<or> migrations_table (db w) = Some [] \<longrightarrow>
      ?cv = 0 \<and> (healthy env \<longrightarrow> fst (GetCurrentVersion env w) = Inr 0)"
    using GetCurrentVersion_live [of env w] by (auto simp: stored_version_def)
  obtain r1 w1 where gv: "GetCurrentVersion env (tick w) = (r1, w1)" by force
  from GetCurrentVersion_result [OF gv]
  have w1: "trace w1 = trace w" and
    r1: "r1 = Inl CtxCancelled \<or> r1 = Inl QueryError \<or> r1 = Inr ?cv"
    by simp_all
  have up: "\<exists>r w' vs. Up env migrations w = (r, w') \<and> ?good w' vs"
  proof (cases "cancelled env w")
    case True
    then have "Up env migrations w = (Inl CtxCancelled, tick w)" by (simp add: Up_def)
    moreover from True have "\<not> healthy env" by auto
    ultimately show ?thesis using nothing [of "tick w"] by auto
  next
    case live: False
    show ?thesis
    proof (cases r1)
      case (Inl e)
      with live gv have "Up env migrations w = (Inl (BeforeApplying e), w1)"
        by (simp add: Up_def)
      moreover from Inl gv get have "\<not> healthy env" by auto
      ultimately show ?thesis using nothing [of w1] w1 by auto
    next
      case (Inr v)
      with r1 have v: "v = ?cv" by simp
      obtain r w' where loop: "Up_loop env migrations ?cv (?cv + 1) w1 = (r, w')" by force
      with live gv Inr v have run: "Up env migrations w = (r, w')" by (simp add: Up_def)
      from Up_loop_invoked [OF loop valid] obtain vs where
        vs: "invoked (trace w') = invoked (trace w1) @ map (\<lambda>v. (v, True)) vs"
            "\<forall>v \<in> set vs. ?cv + 1 \<le> v" "vs \<noteq> [] \<longrightarrow> hd vs = ?cv + 1"
            "?cv + 1 < int (length migrations) \<and> 0 \<le> ?cv + 1 \<and> \<not> cancelled env w1 \<longrightarrow> vs \<noteq> []"
        by auto
      from vs(4) have "healthy env \<and> 0 \<le> ?cv + 1 \<and> ?cv + 1 \<le> maxVersion migrations \<longrightarrow> vs \<noteq> []"
        by (auto simp: maxVersion_def)
      with vs(1-3) w1 have "?good w' vs" by simp
      with run show ?thesis by blast
    qed
  qed
  have steps: "\<exists>r w' vs. Steps env migrations n w = (r, w') \<and> ?good w' vs" if n: "0 < n"
  proof (cases "cancelled env w")
    case True
    then have "Steps env migrations n w = (Inl CtxCancelled, tick w)" by (simp add: Steps_def)
    moreover from True have "\<not> healthy env" by auto
    ultimately show ?thesis using nothing [of "tick w"] by auto
  next
    case live: False
    show ?thesis
    proof (cases r1)
      case (Inl e)
      with live gv have "Steps env migrations n w = (Inl (BeforeSteps e), w1)"
        by (simp add: Steps_def)
      moreover from Inl gv get have "\<not> healthy env" by auto
      ultimately show ?thesis using nothing [of w1] w1 by auto
    next
      case (Inr v)
      with r1 have v: "v = ?cv" by simp
      obtain r w' where loop: "Steps_forward env migrations n 0 ?cv w1 = (r, w')" by force
      with live gv Inr v n have run: "Steps env migrations n w = (r, w')"
        by (simp add: Steps_def)
      from Steps_forward_invoked [OF loop valid] n obtain vs where
        vs: "invoked (trace w') = invoked (trace w1) @ map (\<lambda>v. (v, True)) vs"
            "\<forall>v \<in> set vs. ?cv + 1 \<le> v" "vs \<noteq> [] \<longrightarrow> hd vs = ?cv + 1"
            "?cv + 1 < int (length migrations) \<and> 0 \<le> ?cv + 1 \<and> \<not> cancelled env w1 \<longrightarrow> vs \<noteq> []"
        by auto
      from vs(4) have "healthy env \<and> 0 \<le> ?cv + 1 \<and> ?cv + 1 \<le> maxVersion migrations \<longrightarrow> vs \<noteq> []"
        by (auto simp: maxVersion_def)
      with vs(1-3) w1 have "?good w' vs" by simp
      with run show ?thesis by blast
    qed
  qed
  from first up steps show ?thesis by simp
qed

text \<open>
  The concrete set on a database without the table, where \<^verbatim>\<open>Up\<close> fails when it
  records version 1, and on one whose table is empty.
\<close>

theorem forward_runs_start_above_recorded_version_witness:
  "stored_version (db fresh_world) = 0 \<and>
   fst (GetCurrentVersion demo_env fresh_world) = Inr 0 \<and>
   (\<exists>r w' vs. Up demo_env demo_migrations fresh_world = (r, w') \<and>
      invoked (trace w') = invoked (trace fresh_world) @ map (\<lambda>v. (v, True)) vs \<and>
      list_all (\<lambda>v. 1 \<le> v) vs \<and> vs \<noteq> [] \<and> hd vs = 1) \<and>
   (\<exists>r w' vs. Steps demo_env demo_migrations 2 fresh_world = (r, w') \<and>
      invoked (trace w') = invoked (trace fresh_world) @ map (\<lambda>v. (v, True)) vs \<and>
      list_all (\<lambda>v. 1 \<le> v) vs \<and> vs \<noteq> [] \<and> hd vs = 1) \<and>
   stored_version (db (demo_world [])) = 0 \<and>
   (\<exists>r w' vs. Up demo_env demo_migrations (demo_world []) = (r, w') \<and>
      invoked (trace w') = invoked (trace (demo_world [])) @ map (\<lambda>v. (v, True)) vs \<and>
      list_all (\<lambda>v. 1 \<le> v) vs \<and> vs \<noteq> [] \<and> hd vs = 1)"
proof -
  have absent: "migrations_table (db fresh_world) = None \<or>
      migrations_table (db fresh_world) = Some []"
    by (simp add: fresh_world_def)
  have empty: "migrations_table (db (demo_world [])) = None \<or>
      migrations_table (db (demo_world [])) = Some []"
    by (simp add: demo_world_def)
  have two: "(0::int) < 2" by simp
  have z1: "stored_version (db fresh_world) = 0"
    by (simp add: stored_version_def fresh_world_def)
  have z2: "stored_version (db (demo_world [])) = 0"
    by (simp add: stored_version_def demo_world_def)
  from forward_runs_start_above_recorded_version
    [OF demo_loaded, of fresh_world demo_env 2, unfolded z1]
    absent demo_env_healthy demo_max two
  have one: "stored_version (db fresh_world) = 0 \<and>
   fst (GetCurrentVersion demo_env fresh_world) = Inr 0 \<and>
   (\<exists>r w' vs. Up demo_env demo_migrations fresh_world = (r, w') \<and>
      invoked (trace w') = invoked (trace fresh_world) @ map (\<lambda>v. (v, True)) vs \<and>
      list_all (\<lambda>v. 1 \<le> v) vs \<and> vs \<noteq> [] \<and> hd vs = 1) \<and>
   (\<exists>r w' vs. Steps demo_env demo_migrations 2 fresh_world = (r, w') \<and>
      invoked (trace w') = invoked (trace fresh_world) @ map (\<lambda>v. (v, True)) vs \<and>
      list_all (\<lambda>v. 1 \<le> v) vs \<and> vs \<noteq> [] \<and> hd vs = 1)"
    by (simp add: list_all_iff z1) blast
  from forward_runs_start_above_recorded_version
    [OF demo_loaded, of "demo_world []" demo_env 2, unfolded z2]
    empty demo_env_healthy demo_max two
  have "stored_version (db (demo_world [])) = 0 \<and>
   (\<exists>r w' vs. Up demo_env demo_migrations (demo_world []) = (r, w') \<and>
      invoked (trace w') = invoked (trace (demo_world [])) @ map (\<lambda>v. (v, True)) vs \<and>
      list_all (\<lambda>v. 1 \<le> v) vs \<and> vs \<noteq> [] \<and> hd vs = 1)"
    by (simp add: list_all_iff z2) blast
  with one show ?thesis by simp
qed

end
